theory Spec2Isabelle
  imports Main "HOL-Library.Word" "HOL-Library.Sublist"
begin

unbundle bit_operations_syntax

section \<open>Base types\<close>

type_synonym u8 = "8 word"
type_synonym u32 = "32 word"
type_synonym u64 = "64 word"

text \<open>
  A \<open>SpanU8\<close> is a window into an immutable buffer. Where only the remaining bytes
  matter it is the list of those bytes: \<open>remove_prefix n\<close> is \<open>drop n\<close>,
  \<open>size\<close> is \<open>length\<close>.
\<close>

type_synonym SpanU8 = "u8 list"

section \<open>LEB128 and byte primitives (reader-inl.h)\<close>


definition ReadBytes :: "SpanU8 \<Rightarrow> nat \<Rightarrow> SpanU8 option \<times> SpanU8" where
  "ReadBytes data N =
     (if length data < N then (None, data)
      else (Some (take N data), drop N data))"

text \<open>
  \<open>SignExtend<S>(x, N)\<close>: shift left so that bit \<open>N\<close> becomes the top bit, then shift
  right arithmetically by the same amount.
\<close>

definition SignExtend :: "'a::len word \<Rightarrow> nat \<Rightarrow> 'a word" where
  "SignExtend x N =
     signed_drop_bit (LENGTH('a) - N - 1) (push_bit (LENGTH('a) - N - 1) x)"

text \<open>
  \<open>ReadVarInt<T>\<close>. The template parameter \<open>T\<close> is given by the word type \<open>'a\<close>
  (\<open>sizeof(T) * 8\<close> is \<open>LENGTH('a)\<close>) and by \<open>is_signed\<close>; a signed result is the word
  holding its two's complement bits (read it with \<open>sint\<close>). The constants are
  integer expressions of the source, \<open>/\<close> on positive integers is \<open>div\<close>. The
  loop \<open>for (int i = 0;;)\<close> is a recursion on the span: each round reads one byte.
\<close>

definition kMaxBytes :: "nat \<Rightarrow> nat" where
  "kMaxBytes bits = (bits + 6) div 7"

definition kUsedBitsInLastByte :: "nat \<Rightarrow> nat" where
  "kUsedBitsInLastByte bits = bits - 7 * (kMaxBytes bits - 1)"

definition kMaskBits :: "bool \<Rightarrow> nat \<Rightarrow> nat" where
  "kMaskBits is_signed bits = kUsedBitsInLastByte bits - (if is_signed then 1 else 0)"

definition kMask :: "bool \<Rightarrow> nat \<Rightarrow> u8" where
  "kMask is_signed bits = NOT (push_bit (kMaskBits is_signed bits) 1 - 1)"

definition kOnes :: "bool \<Rightarrow> nat \<Rightarrow> u8" where
  "kOnes is_signed bits = kMask is_signed bits AND 0x7f"

text \<open>
  The first equation is \<open>WASP_READ(byte, ReadU8(data))\<close> on an empty span, which
  returns \<open>nullopt\<close>; the second is a round on a span that has a byte.
\<close>

fun ReadVarInt_loop :: "bool \<Rightarrow> nat \<Rightarrow> 'a::len word \<Rightarrow> SpanU8 \<Rightarrow> 'a word option \<times> SpanU8" where
  "ReadVarInt_loop is_signed i result [] = (None, [])"
| "ReadVarInt_loop is_signed i result (byte # data) =
     (let shift = i * 7;
          result = result OR push_bit shift (ucast (byte AND 0x7f))
      in if i + 1 = kMaxBytes LENGTH('a) then
           (if byte AND kMask is_signed LENGTH('a) = 0
               \<or> (is_signed \<and> byte AND kMask is_signed LENGTH('a) = kOnes is_signed LENGTH('a))
            then (Some result, data)
            else (None, data))
         else if byte AND 0x80 = 0 then
           (Some (if is_signed then SignExtend result (6 + shift) else result), data)
         else ReadVarInt_loop is_signed (i + 1) result data)"

definition ReadVarInt :: "bool \<Rightarrow> SpanU8 \<Rightarrow> 'a::len word option \<times> SpanU8" where
  "ReadVarInt is_signed data = ReadVarInt_loop is_signed 0 0 data"

definition ReadVarU32 :: "SpanU8 \<Rightarrow> u32 option \<times> SpanU8" where
  "ReadVarU32 data = ReadVarInt False data"




text \<open>The test that the source makes on the byte read in the last round.\<close>

definition final_check :: "bool \<Rightarrow> nat \<Rightarrow> u8 \<Rightarrow> bool" where
  "final_check is_signed bits byte \<longleftrightarrow>
     byte AND kMask is_signed bits = 0
     \<or> (is_signed \<and> byte AND kMask is_signed bits = kOnes is_signed bits)"

text \<open>
  The same condition in the words of the specification. Of the last byte, bit 7 is the
  continuation bit, the low \<open>kUsedBitsInLastByte\<close> bits are used (the highest of
  them is the sign bit of a signed target), the bits between are unused. The unused bits
  must be all zero for an unsigned or a non-negative signed value and all one for a
  negative signed value, and the continuation bit must be clear.
\<close>

definition final_byte_ok :: "bool \<Rightarrow> nat \<Rightarrow> u8 \<Rightarrow> bool" where
  "final_byte_ok is_signed bits byte \<longleftrightarrow>
     \<not> bit byte 7 \<and>
     (if is_signed \<and> bit byte (kUsedBitsInLastByte bits - 1)
      then \<forall>j \<in> {kUsedBitsInLastByte bits..<7}. bit byte j
      else \<forall>j \<in> {kUsedBitsInLastByte bits..<7}. \<not> bit byte j)"

text \<open>
  The value that the bytes of an unsigned LEB128 integer stand for: the low seven bits
  of the byte at position \<open>i\<close> are the bits \<open>7 i\<close> to \<open>7 i + 6\<close> of the value.
\<close>

fun leb_bits :: "nat \<Rightarrow> SpanU8 \<Rightarrow> 'a::len word" where
  "leb_bits i [] = 0"
| "leb_bits i (byte # bytes) =
     push_bit (i * 7) (ucast (byte AND 0x7f)) OR leb_bits (i + 1) bytes"

section \<open>Limits: the reader of reader-inl.h\<close>

text \<open>
  \<open>struct Limits\<close> as the readers build it: \<open>Limits{min}\<close> has no maximum,
  \<open>Limits{min, max}\<close> has one. The fields carry a suffix because \<open>min\<close> and
  \<open>max\<close> are constants of HOL.
\<close>

record Limits =
  min_l :: u32
  max_l :: "u32 option"

text \<open>
  \<open>ReadLimits\<close> of \<open>reader-inl.h\<close>: each \<open>WASP_READ\<close> returns \<open>nullopt\<close> when its
  read fails. Only bit 0 of the flags is looked at.
\<close>

definition ReadLimits :: "SpanU8 \<Rightarrow> Limits option \<times> SpanU8" where
  "ReadLimits data =
     (let kFlags_HasMax = (1 :: u32) in
      case ReadVarU32 data of
        (None, data) \<Rightarrow> (None, data)
      | (Some flags, data) \<Rightarrow>
     (case ReadVarU32 data of
        (None, data) \<Rightarrow> (None, data)
      | (Some min_v, data) \<Rightarrow>
          if flags AND kFlags_HasMax \<noteq> 0 then
            (case ReadVarU32 data of
               (None, data) \<Rightarrow> (None, data)
             | (Some max_v, data) \<Rightarrow> (Some \<lparr>min_l = min_v, max_l = Some max_v\<rparr>, data))
          else (Some \<lparr>min_l = min_v, max_l = None\<rparr>, data)))"

section \<open>Readers that report errors with a context stack (include/wasp/binary/read)\<close>

text \<open>
  A \<open>Location\<close> is a \<open>SpanU8\<close>. Every span these readers hold is a suffix of the
  input, so the offset of a location in the input \<open>orig_data\<close> is the number of bytes
  in front of it.
\<close>

type_synonym Location = SpanU8

definition pos_in :: "SpanU8 \<Rightarrow> Location \<Rightarrow> nat" where
  "pos_in orig_data loc = length orig_data - length loc"

text \<open>
  \<open>struct ErrorContext { Location loc; std::string desc; }\<close>,
  \<open>using Error = std::vector<ErrorContext>\<close>, and the two fields of
  \<open>class TestErrors\<close> (test_utils.h).
\<close>

type_synonym ErrorContext = "Location \<times> string"
type_synonym Error = "ErrorContext list"

record TestErrors =
  context_stack :: "ErrorContext list"
  errors :: "Error list"

text \<open>
  Modelled from the spec: the bodies of \<open>TestErrors::HandlePushContext\<close>,
  \<open>HandlePopContext\<close> and \<open>HandleOnError\<close> are not in the sources at hand
  (test_utils.h only declares them). Sections 4.2 and 6 of the specification: the reader
  keeps a stack of contexts; an error carries its location, its message and the ordered
  stack of contexts in effect when it was emitted.
\<close>

definition HandlePushContext :: "Location \<Rightarrow> string \<Rightarrow> TestErrors \<Rightarrow> TestErrors" where
  "HandlePushContext loc desc errs = errs\<lparr>context_stack := context_stack errs @ [(loc, desc)]\<rparr>"

definition HandlePopContext :: "TestErrors \<Rightarrow> TestErrors" where
  "HandlePopContext errs = errs\<lparr>context_stack := butlast (context_stack errs)\<rparr>"

definition HandleOnError :: "Location \<Rightarrow> string \<Rightarrow> TestErrors \<Rightarrow> TestErrors" where
  "HandleOnError loc message errs =
     errs\<lparr>errors := errors errs @ [context_stack errs @ [(loc, message)]]\<rparr>"

text \<open>
  Modelled from the spec: \<open>ErrorsContextGuard\<close> (errors_context_guard.h) and the macro
  \<open>WASP_TRY_READ_CONTEXT\<close> (read/macros.h) are missing. Section 9 of the specification:
  a context frame is a scoped resource, pushed when the guard is made and released on
  every exit path. \<open>WASP_TRY_READ_CONTEXT(var, call, desc)\<close> makes a guard for
  \<open>desc\<close> at the current position, runs \<open>call\<close>, and returns \<open>nullopt\<close> when the call
  failed; either way the frame is popped once the call is over.
\<close>

type_synonym 'a reader = "SpanU8 \<Rightarrow> TestErrors \<Rightarrow> 'a option \<times> SpanU8 \<times> TestErrors"

definition READ_CONTEXT :: "'a reader \<Rightarrow> string \<Rightarrow> 'a reader" where
  "READ_CONTEXT call desc data errs =
     (case call data (HandlePushContext data desc errs) of
        (r, data, errs) \<Rightarrow> (r, data, HandlePopContext errs))"

text \<open>
  Modelled from the spec: \<open>Read<u8>\<close> (read_u8.h) is missing. Section 8 of the
  specification gives its message, \<open>Unable to read u8\<close>, reported at the position of
  the failed read; otherwise it is \<open>ReadU8\<close>.
\<close>

definition Read_u8 :: "u8 reader" where
  "Read_u8 data errs =
     (if length data < 1 then (None, data, HandleOnError data ''Unable to read u8'' errs)
      else (Some (data ! 0), drop 1 data, errs))"

text \<open>
  Modelled from the spec: \<open>Read<u32>\<close> (read_u32.h) is missing. Section 4.1 of the
  specification: an unsigned LEB128 integer of width 32, which fails with
  \<open>IntegerTooLarge\<close> when the last of the five bytes has a bit set that does not fit,
  and with \<open>UnexpectedEnd\<close> when the input ends too early. The decoding is
  \<open>ReadVarInt\<close>.
\<close>

definition Read_u32 :: "u32 reader" where
  "Read_u32 data errs =
     (case ReadVarU32 data of
        (Some v, rest) \<Rightarrow> (Some v, rest, errs)
      | (None, rest) \<Rightarrow>
          (None, rest,
           HandleOnError rest
             (if length data - length rest = kMaxBytes 32
              then ''IntegerTooLarge'' else ''UnexpectedEnd'') errs))"

text \<open>
  \<open>format("{}", n)\<close> of an unsigned integer: its decimal digits.
\<close>

fun decimal :: "nat \<Rightarrow> string" where
  "decimal n =
     (if n < 10 then [''0123456789'' ! n]
      else decimal (n div 10) @ [''0123456789'' ! (n mod 10)])"

text \<open>
  \<open>Read<Limits>\<close> of read_limits.h. The guard \<open>"limits"\<close> is made first and is
  released on every return. The flags are one byte; the switch has the two cases
  \<open>Flags_NoMax = 0\<close> and \<open>Flags_HasMax = 1\<close> of limits_encoding.h and a default that
  reports the error.
\<close>

definition Flags_NoMax :: u8 where "Flags_NoMax = 0"
definition Flags_HasMax :: u8 where "Flags_HasMax = 1"

definition Read_Limits :: "Limits reader" where
  "Read_Limits data errs =
     (let errs = HandlePushContext data ''limits'' errs in
      case READ_CONTEXT Read_u8 ''flags'' data errs of
        (None, data, errs) \<Rightarrow> (None, data, HandlePopContext errs)
      | (Some flags, data, errs) \<Rightarrow>
          if flags = Flags_NoMax then
            (case READ_CONTEXT Read_u32 ''min'' data errs of
               (None, data, errs) \<Rightarrow> (None, data, HandlePopContext errs)
             | (Some min_v, data, errs) \<Rightarrow>
                 (Some \<lparr>min_l = min_v, max_l = None\<rparr>, data, HandlePopContext errs))
          else if flags = Flags_HasMax then
            (case READ_CONTEXT Read_u32 ''min'' data errs of
               (None, data, errs) \<Rightarrow> (None, data, HandlePopContext errs)
             | (Some min_v, data, errs) \<Rightarrow>
            (case READ_CONTEXT Read_u32 ''max'' data errs of
               (None, data, errs) \<Rightarrow> (None, data, HandlePopContext errs)
             | (Some max_v, data, errs) \<Rightarrow>
                 (Some \<lparr>min_l = min_v, max_l = Some max_v\<rparr>, data, HandlePopContext errs)))
          else
            (None, data,
             HandlePopContext (HandleOnError data (''Invalid flags value: '' @ decimal (unat flags)) errs)))"

text \<open>
  Modelled from the spec: \<open>Read<MemoryType>\<close> and \<open>Read<Memory>\<close> (read_memory_type.h,
  read_memory.h) are missing; the test read_memory_test.cc calls them. A memory type is
  its limits and a memory is its memory type (section 3); each reader opens the context
  that section 8 names for it, \<open>memory type\<close> and \<open>memory\<close>.
\<close>

record MemoryType =
  limits :: Limits

record Memory =
  memory_type :: MemoryType

definition Read_MemoryType :: "MemoryType reader" where
  "Read_MemoryType data errs =
     (let errs = HandlePushContext data ''memory type'' errs in
      case Read_Limits data errs of
        (None, data, errs) \<Rightarrow> (None, data, HandlePopContext errs)
      | (Some l, data, errs) \<Rightarrow> (Some \<lparr>limits = l\<rparr>, data, HandlePopContext errs))"

definition Read_Memory :: "Memory reader" where
  "Read_Memory data errs =
     (let errs = HandlePushContext data ''memory'' errs in
      case Read_MemoryType data errs of
        (None, data, errs) \<Rightarrow> (None, data, HandlePopContext errs)
      | (Some t, data, errs) \<Rightarrow> (Some \<lparr>memory_type = t\<rparr>, data, HandlePopContext errs))"

section \<open>Hooks, results and the small readers of reader-inl.h\<close>

datatype HookResult = Continue | Stop

datatype ReadResult = Ok | Error

text \<open>
  The old API names the value types \<open>ValType\<close>; its enumerators carry a prefix here,
  to keep them apart from those of \<open>ValueType\<close>.
\<close>

datatype ValType =
  ValType_I32 | ValType_I64 | ValType_F32 | ValType_F64
  | ValType_Anyfunc | ValType_Func | ValType_Void

record MemArg =
  align_log2 :: u32
  offset :: u32

text \<open>
  A \<open>Hooks\<close> object is a template parameter of the readers: any object with the
  methods called. Here it is a record of functions over a state \<open>'h\<close> of the hooks'
  own. The methods \<open>OnOpcodeBare\<close>, \<open>OnOpcodeType\<close>, ... that \<open>ReadExpr\<close> calls
  are the constructors of \<open>OpcodeEvent\<close>, handled by the one field \<open>OnOpcode\<close>.
  An \<open>f32\<close> or \<open>f64\<close> constant is the bytes that \<open>memcpy\<close> copies.
\<close>

datatype OpcodeEvent =
  OnOpcodeBare u8
  | OnOpcodeType u8 ValType
  | OnOpcodeIndex u8 u32
  | OnOpcodeCallIndirect u8 u32 u8
  | OnOpcodeBrTable u8 "u32 list" u32
  | OnOpcodeMemarg u8 MemArg
  | OnOpcodeI32Const u8 u32
  | OnOpcodeI64Const u8 u64
  | OnOpcodeF32Const u8 SpanU8
  | OnOpcodeF64Const u8 SpanU8

record 'h Hooks =
  OnError :: "string \<Rightarrow> 'h \<Rightarrow> 'h"
  OnSection :: "u32 \<Rightarrow> SpanU8 \<Rightarrow> 'h \<Rightarrow> HookResult \<times> 'h"
  OnOpcode :: "OpcodeEvent \<Rightarrow> 'h \<Rightarrow> HookResult \<times> 'h"

definition ReadIndex :: "SpanU8 \<Rightarrow> u32 option \<times> SpanU8" where
  "ReadIndex data = ReadVarU32 data"



text \<open>
  Two ways in which a reader does not return. \<open>std::vector::reserve\<close> throws
  \<open>std::bad_alloc\<close> when the storage asked for cannot be allocated, and nothing in the
  readers catches it. The addition of 1 to an \<open>int\<close> that holds \<open>INT_MAX\<close> is a
  signed overflow, which has no defined result.
\<close>

datatype abnormal = Throws_bad_alloc | Signed_overflow


text \<open>
  \<open>ReadVec<T>(data, read_element)\<close>: the length, then \<open>result.reserve(len)\<close>, then
  that many elements; the loop \<open>for (u32 i = 0; i < len; ++i)\<close> is a recursion on the
  number of elements still to read. Whether \<open>reserve\<close> returns depends on the memory
  that the process can get, not on the input alone: \<open>reserve n\<close> tells whether the
  storage for \<open>n\<close> elements is granted. After it, \<open>emplace_back\<close> allocates nothing.
\<close>

fun ReadVec_loop ::
  "(SpanU8 \<Rightarrow> 'a option \<times> SpanU8) \<Rightarrow> nat \<Rightarrow> 'a list \<Rightarrow> SpanU8 \<Rightarrow> 'a list option \<times> SpanU8" where
  "ReadVec_loop read_element 0 result data = (Some result, data)"
| "ReadVec_loop read_element (Suc n) result data =
     (case read_element data of
        (None, data) \<Rightarrow> (None, data)
      | (Some elt, data) \<Rightarrow> ReadVec_loop read_element n (result @ [elt]) data)"

definition ReadVec ::
  "(nat \<Rightarrow> bool) \<Rightarrow> (SpanU8 \<Rightarrow> 'a option \<times> SpanU8) \<Rightarrow> SpanU8
   \<Rightarrow> abnormal + ('a list option \<times> SpanU8)" where
  "ReadVec reserve read_element data =
     (case ReadVarU32 data of
        (None, data) \<Rightarrow> Inr (None, data)
      | (Some len, data) \<Rightarrow>
          if reserve (unat len) then Inr (ReadVec_loop read_element (unat len) [] data)
          else Inl Throws_bad_alloc)"







section \<open>ReadExpr (reader-inl.h)\<close>







section \<open>The loop of ReadExpr\<close>



text \<open>Every reader leaves a suffix of the span it was given.\<close>

definition leaves_suffix :: "(SpanU8 \<Rightarrow> 'a option \<times> SpanU8) \<Rightarrow> bool" where
  "leaves_suffix call \<longleftrightarrow> (\<forall>data. suffix (snd (call data)) data)"

lemma leaves_suffixD: "leaves_suffix call \<Longrightarrow> call data = (r, rest) \<Longrightarrow> suffix rest data"
  by (metis leaves_suffix_def snd_conv)



lemma ReadVarInt_loop_suffix: "suffix (snd (ReadVarInt_loop s i r data)) data"
proof (induction data arbitrary: i r)
  case Nil
  then show ?case by simp
next
  case (Cons byte data)
  have "suffix (snd (ReadVarInt_loop s (i + 1) r' data)) (byte # data)" for r' :: "'a word"
    using Cons.IH [of "i + 1" r'] by (rule suffix_ConsI)
  then show ?case by (simp add: Let_def suffix_ConsI)
qed

lemma ReadVarInt_suffix: "leaves_suffix (ReadVarInt s)"
  by (simp add: leaves_suffix_def ReadVarInt_def ReadVarInt_loop_suffix)

lemma ReadVarInt_loop_shorter:
  "data \<noteq> [] \<Longrightarrow> length (snd (ReadVarInt_loop s i r data)) < length data"
proof (cases data)
  case Nil
  then show "data \<noteq> [] \<Longrightarrow> ?thesis" by simp
next
  case (Cons byte rest)
  have "length (snd (ReadVarInt_loop s (i + 1) r' rest)) \<le> length rest" for r' :: "'a word"
    using ReadVarInt_loop_suffix [of s "i + 1" r' rest] by (rule suffix_length_le)
  then show ?thesis using Cons by (simp add: Let_def less_Suc_eq_le)
qed

lemma ReadVarU32_suffix: "leaves_suffix ReadVarU32"
  using ReadVarInt_suffix [of False] by (simp add: leaves_suffix_def ReadVarU32_def)






























text \<open>A process in which every \<open>reserve\<close> is granted.\<close>

definition reserve_granted :: "nat \<Rightarrow> bool" where
  "reserve_granted n = True"
section \<open>ReadSection and ReadModule (reader-inl.h)\<close>

text \<open>
  \<open>WASP_READ_OR_ERROR\<close> and \<open>WASP_HOOK\<close> in a function that returns a
  \<open>ReadResult\<close>: \<open>return {}\<close> returns the value-initialised \<open>ReadResult\<close>, the
  enumerator whose value is 0. The declaration of the enumeration is missing, so that
  enumerator is the parameter \<open>zero\<close>.
\<close>

definition ReadSection ::
  "ReadResult \<Rightarrow> 'h Hooks \<Rightarrow> SpanU8 \<Rightarrow> 'h \<Rightarrow> ReadResult \<times> SpanU8 \<times> 'h" where
  "ReadSection zero hooks data h =
     (case ReadVarU32 data of
        (None, data) \<Rightarrow> (zero, data, OnError hooks ''Unable to read section code'' h)
      | (Some code, data) \<Rightarrow>
     (case ReadVarU32 data of
        (None, data) \<Rightarrow> (zero, data, OnError hooks ''Unable to read section length'' h)
      | (Some len, data) \<Rightarrow>
          if unat len > length data then
            (Error, data,
             OnError hooks (''Section length is too long: '' @ decimal (unat len) @ '' > ''
                            @ decimal (length data)) h)
          else
            (case OnSection hooks code (take (unat len) data) h of
               (Stop, h) \<Rightarrow> (zero, data, h)
             | (Continue, h) \<Rightarrow> (Ok, drop (unat len) data, h))))"

lemma ReadVarU32_shorter:
  "data \<noteq> [] \<Longrightarrow> ReadVarU32 data = (r, rest) \<Longrightarrow> length rest < length data"
  using ReadVarInt_loop_shorter [of data False 0 "0 :: u32"]
  by (simp add: ReadVarU32_def ReadVarInt_def)

lemma ReadSection_shorter:
  assumes "data \<noteq> []" and "ReadSection zero hooks data h = (res, rest, h')"
  shows "length rest < length data"
proof -
  obtain r1 d1 where r1: "ReadVarU32 data = (r1, d1)" by (rule prod.exhaust)
  with assms(1) have l1: "length d1 < length data" by (rule ReadVarU32_shorter)
  obtain r2 d2 where r2: "ReadVarU32 d1 = (r2, d2)" by (rule prod.exhaust)
  with ReadVarU32_suffix have "suffix d2 d1" by (rule leaves_suffixD)
  then have l2: "length d2 \<le> length d1" by (rule suffix_length_le)
  from assms(2) r1 r2 l1 l2 show ?thesis
    by (auto simp: ReadSection_def split: option.splits if_splits prod.splits HookResult.splits)
qed

text \<open>
  \<open>ReadModule\<close> applies \<open>*\<close> to an \<open>optional\<close>. On an empty optional that is
  undefined behaviour; the model makes it a fault of its own, so that a run either
  returns a \<open>ReadResult\<close> or has dereferenced \<open>nullopt\<close>.
\<close>

datatype fault = DerefOfNullopt

definition deref :: "'a option \<Rightarrow> fault + 'a" where
  "deref opt = (case opt of None \<Rightarrow> Inl DerefOfNullopt | Some v \<Rightarrow> Inr v)"

text \<open>
  Modelled from the spec: \<open>encoding::Magic\<close> and \<open>encoding::Version\<close> (encoding.h) are
  missing; section 6 of the specification gives the bytes.
\<close>

definition Magic :: SpanU8 where "Magic = [0x00, 0x61, 0x73, 0x6d]"
definition Version :: SpanU8 where "Version = [0x01, 0x00, 0x00, 0x00]"

function ReadModule_loop ::
  "ReadResult \<Rightarrow> 'h Hooks \<Rightarrow> SpanU8 \<Rightarrow> 'h \<Rightarrow> ReadResult \<times> 'h" where
  "ReadModule_loop zero hooks data h =
     (if data \<noteq> [] then
        (case ReadSection zero hooks data h of
           (res, data', h') \<Rightarrow>
             if res = Error then (Error, h')
             else ReadModule_loop zero hooks data' h')
      else (Ok, h))"
  by pat_completeness auto
termination
proof (relation "measure (\<lambda>(zero, hooks, data, h). length data)")
  show "wf (measure (\<lambda>(zero, hooks, data, h). length data))" by simp
next
  fix zero :: ReadResult and hooks :: "'h Hooks" and data :: SpanU8 and h :: 'h and x xa y xb ya
  assume "data \<noteq> []" "(x, xa) = ReadSection zero hooks data h" "(xb, ya) = xa"
  then have "length xb < length data" using ReadSection_shorter [of data zero hooks h x xb ya] by simp
  then show "((zero, hooks, xb, ya), zero, hooks, data, h)
      \<in> measure (\<lambda>(zero, hooks, data, h). length data)" by simp
qed

text \<open>
  \<open>opt_magic != kMagic\<close> compares an optional with a span: an empty optional differs
  from every span. The arguments of \<open>absl::StrFormat\<close>, among them \<open>*opt_magic\<close>,
  are evaluated before \<open>hooks.OnError\<close> is called. \<open>wasp::ToString\<close> (to_string.h) is
  missing and is a parameter.
\<close>

definition ReadModule ::
  "ReadResult \<Rightarrow> (SpanU8 \<Rightarrow> string) \<Rightarrow> 'h Hooks \<Rightarrow> SpanU8 \<Rightarrow> 'h \<Rightarrow> fault + ReadResult \<times> 'h" where
  "ReadModule zero ToString hooks data h =
     (let kMagic = Magic; kVersion = Version in
      case ReadBytes data 4 of (opt_magic, data) \<Rightarrow>
      if opt_magic \<noteq> Some kMagic then
        (case deref opt_magic of
           Inl f \<Rightarrow> Inl f
         | Inr magic \<Rightarrow>
             Inr (Error, OnError hooks (''Magic mismatch: expected '' @ ToString kMagic
                                         @ '', got '' @ ToString magic) h))
      else
      case ReadBytes data 4 of (opt_version, data) \<Rightarrow>
      if opt_version \<noteq> Some kVersion then
        (case deref opt_version of
           Inl f \<Rightarrow> Inl f
         | Inr version \<Rightarrow>
             Inr (Error, OnError hooks (''Version mismatch: expected '' @ ToString kVersion
                                         @ '', got '' @ ToString version) h))
      else Inr (ReadModule_loop zero hooks data h))"

section \<open>The tokenizer (tokenizer-inl.h)\<close>

text \<open>
  Modelled from the spec: \<open>token.h\<close> is missing. Section 4.3 of the specification lists
  the kinds of tokens; a token has a location and a type. \<open>TokenType::Id\<close> carries a
  suffix because \<open>Id\<close> is a constant of HOL.
\<close>

datatype TokenType =
  Lpar | Rpar | Reserved | Id_token | Keyword string | IntegerLiteral | FloatLiteral
  | StringLiteral | LparAnn | Eof

record Token =
  loc :: SpanU8
  token_type :: TokenType

text \<open>
  \<open>LexNoWhitespaceCollectAnnots\<close> is declared in lex.h; its body is missing. It is a
  parameter of every operation here: any function that takes the span and returns the
  next token, the annotations collected on the way and the span that is left.
\<close>

type_synonym lexer = "SpanU8 \<Rightarrow> (Token \<times> Token list list) \<times> SpanU8"

text \<open>
  The members of \<open>class Tokenizer\<close> that tokenizer-inl.h uses (the class is declared in
  tokenizer.h, which is missing). A name cannot end in an underscore here, so
  \<open>data_\<close> is \<open>data_m\<close>, and so on. \<open>tokens_\<close> is an array of two tokens, indexed
  by \<open>current_\<close> and \<open>!current_\<close>.
\<close>

record Tokenizer =
  data_m :: SpanU8
  tokens_m :: "bool \<Rightarrow> Token"
  current_m :: bool
  count_m :: int
  previous_token_m :: Token
  annots_m :: "Token list list"

text \<open>
  The constructor \<open>Tokenizer(SpanU8 data) : data_{data}\<close>; the other members start
  empty, with \<open>tok\<close> for a default token.
\<close>

definition new_Tokenizer :: "Token \<Rightarrow> SpanU8 \<Rightarrow> Tokenizer" where
  "new_Tokenizer tok data =
     \<lparr>data_m = data, tokens_m = (\<lambda>i. tok), current_m = False, count_m = 0,
      previous_token_m = tok, annots_m = []\<rparr>"

definition Previous :: "Tokenizer \<Rightarrow> Token" where
  "Previous t = previous_token_m t"

definition Read :: "lexer \<Rightarrow> Tokenizer \<Rightarrow> Token \<times> Tokenizer" where
  "Read LexNoWhitespaceCollectAnnots t =
     (if count_m t = 0 then
        (case LexNoWhitespaceCollectAnnots (data_m t) of
           ((cur, annots), data) \<Rightarrow>
             (cur, t\<lparr>data_m := data, annots_m := annots_m t @ annots, previous_token_m := cur\<rparr>))
      else
        (let tok = tokens_m t (current_m t) in
         (tok, t\<lparr>previous_token_m := tok, current_m := \<not> current_m t, count_m := count_m t - 1\<rparr>)))"

text \<open>
  \<open>Peek(at)\<close> has \<open>assert(at == 1)\<close> on the path for \<open>at != 0\<close>: a failed assertion
  aborts the program.
\<close>

datatype abort = AssertionFailed

definition Peek :: "lexer \<Rightarrow> nat \<Rightarrow> Tokenizer \<Rightarrow> abort + Token \<times> Tokenizer" where
  "Peek LexNoWhitespaceCollectAnnots at t =
     (let t = (if count_m t = 0 then
                 (case LexNoWhitespaceCollectAnnots (data_m t) of
                    ((cur, annots), data) \<Rightarrow>
                      t\<lparr>data_m := data, annots_m := annots_m t @ annots,
                        tokens_m := (tokens_m t)(current_m t := cur), count_m := count_m t + 1\<rparr>)
               else t)
      in if at = 0 then Inr (tokens_m t (current_m t), t)
         else if at \<noteq> 1 then Inl AssertionFailed
         else
           (let t = (if count_m t = 1 then
                       (case LexNoWhitespaceCollectAnnots (data_m t) of
                          ((cur, annots), data) \<Rightarrow>
                            t\<lparr>data_m := data, annots_m := annots_m t @ annots,
                              tokens_m := (tokens_m t)((\<not> current_m t) := cur),
                              count_m := count_m t + 1\<rparr>)
                     else t)
            in Inr (tokens_m t (\<not> current_m t), t)))"

text \<open>\<open>Match\<close> calls \<open>Peek()\<close>, whose default argument is 0.\<close>

definition Match :: "lexer \<Rightarrow> TokenType \<Rightarrow> Tokenizer \<Rightarrow> abort + Token option \<times> Tokenizer" where
  "Match LexNoWhitespaceCollectAnnots tt t =
     (case Peek LexNoWhitespaceCollectAnnots 0 t of
        Inl a \<Rightarrow> Inl a
      | Inr (tok, t) \<Rightarrow>
          if token_type tok \<noteq> tt then Inr (None, t)
          else (case Read LexNoWhitespaceCollectAnnots t of (tok, t) \<Rightarrow> Inr (Some tok, t)))"

definition MatchLpar :: "lexer \<Rightarrow> TokenType \<Rightarrow> Tokenizer \<Rightarrow> abort + Token option \<times> Tokenizer" where
  "MatchLpar LexNoWhitespaceCollectAnnots tt t =
     (case Peek LexNoWhitespaceCollectAnnots 0 t of
        Inl a \<Rightarrow> Inl a
      | Inr (tok0, t) \<Rightarrow>
          if token_type tok0 \<noteq> Lpar then Inr (None, t)
          else
            (case Peek LexNoWhitespaceCollectAnnots 1 t of
               Inl a \<Rightarrow> Inl a
             | Inr (tok1, t) \<Rightarrow>
                 if token_type tok1 \<noteq> tt then Inr (None, t)
                 else
                   (case Read LexNoWhitespaceCollectAnnots t of (_, t) \<Rightarrow>
                    case Read LexNoWhitespaceCollectAnnots t of (tok, t) \<Rightarrow> Inr (Some tok, t))))"

text \<open>
  The tokens that the next \<open>n\<close> calls of \<open>Read\<close> return, the state after \<open>n\<close> calls
  apart: what the parser can still see of the token stream.
\<close>

fun upcoming :: "lexer \<Rightarrow> nat \<Rightarrow> Tokenizer \<Rightarrow> Token list" where
  "upcoming LexNoWhitespaceCollectAnnots 0 t = []"
| "upcoming LexNoWhitespaceCollectAnnots (Suc n) t = (case Read LexNoWhitespaceCollectAnnots t of (tok, t') \<Rightarrow> tok # upcoming LexNoWhitespaceCollectAnnots n t')"

text \<open>At most two tokens are cached.\<close>

definition cache_ok :: "Tokenizer \<Rightarrow> bool" where
  "cache_ok t \<longleftrightarrow> count_m t = 0 \<or> count_m t = 1 \<or> count_m t = 2"

text \<open>
  The \<open>i\<close>-th token ahead of a state: one of the cached ones, or one that the lexer
  has yet to produce.
\<close>

fun lex_at :: "lexer \<Rightarrow> nat \<Rightarrow> SpanU8 \<Rightarrow> Token" where
  "lex_at LexNoWhitespaceCollectAnnots 0 d = fst (fst (LexNoWhitespaceCollectAnnots d))"
| "lex_at LexNoWhitespaceCollectAnnots (Suc i) d = lex_at LexNoWhitespaceCollectAnnots i (snd (LexNoWhitespaceCollectAnnots d))"

definition nth_token :: "lexer \<Rightarrow> Tokenizer \<Rightarrow> nat \<Rightarrow> Token" where
  "nth_token LexNoWhitespaceCollectAnnots t i =
     (if int i < count_m t then tokens_m t (if i = 0 then current_m t else \<not> current_m t)
      else lex_at LexNoWhitespaceCollectAnnots (i - nat (count_m t)) (data_m t))"

text \<open>A lexer of one-byte tokens, to run the tokenizer on an input.\<close>

definition byte_lexer :: lexer where
  "byte_lexer data =
     (case data of
        [] \<Rightarrow> ((\<lparr>loc = [], token_type = Eof\<rparr>, []), [])
      | b # rest \<Rightarrow>
          ((\<lparr>loc = [b],
             token_type = (if b = 0x28 then Lpar else if b = 0x29 then Rpar else Reserved)\<rparr>, []),
           rest))"

section \<open>Value type encoding (value_type_encoding.h)\<close>

text \<open>
  \<open>encoding::ValueType::Encode\<close> and \<open>Decode\<close> are two switch statements generated
  from the X-macro list \<open>wasp/binary/value_type.def\<close>: one entry
  \<open>WASP_V(val, Name, str)\<close> per value type. The list itself is not part of the sources
  at hand, so it is a parameter \<open>tbl\<close> here: the entries \<open>(val, Name)\<close> in the order of
  the file. A switch selects the case whose label equals the scrutinee; \<open>Encode\<close> ends in
  \<open>WASP_UNREACHABLE()\<close> when no case matches, \<open>Decode\<close> in \<open>nullopt\<close>.
\<close>

datatype 'a reached = Returned 'a | Unreachable

definition Encode :: "(u8 \<times> 'vt) list \<Rightarrow> 'vt \<Rightarrow> u8 reached" where
  "Encode tbl decoded =
     (case find (\<lambda>(val, name). name = decoded) tbl of
        Some (val, name) \<Rightarrow> Returned val
      | None \<Rightarrow> Unreachable)"

definition Decode :: "(u8 \<times> 'vt) list \<Rightarrow> u8 \<Rightarrow> 'vt option" where
  "Decode tbl v =
     (case find (\<lambda>(val, name). val = v) tbl of
        Some (val, name) \<Rightarrow> Some name
      | None \<Rightarrow> None)"

text \<open>
  Modelled from the spec: the contents of \<open>value_type.def\<close> are missing. Section 3
  of the specification lists the value types i32, i64, f32, f64, v128, funcref,
  externref and exnref; their bytes are those of the WebAssembly binary format that
  section 6 names.
\<close>

datatype ValueType = I32 | I64 | F32 | F64 | V128 | Funcref | Externref | Exnref

definition value_type_def :: "(u8 \<times> ValueType) list" where
  "value_type_def =
     [(0x7f, I32), (0x7e, I64), (0x7d, F32), (0x7c, F64), (0x7b, V128),
      (0x70, Funcref), (0x6f, Externref), (0x68, Exnref)]"

section \<open>The function type map of the text reader\<close>

text \<open>
  Modelled from the spec: \<open>FunctionTypeMap\<close> (wasp/text/read/context.h and its source
  file) is missing; the tests of read_test.cc call \<open>Define\<close>, \<open>EndModule\<close>, \<open>Size\<close>
  and \<open>Get\<close>, and the parser calls \<open>Use\<close>. Sections 3 and 4.5 of the specification:
  a function type is its parameter and result types and equality is structural; the
  map is the type index space together with the implicitly defined types. An explicit
  definition always adds an entry. A use of an anonymous type looks the type up: when
  it is present its index is used; otherwise the type is deferred, once, and
  \<open>EndModule\<close> appends the deferred types after the explicit ones in the order in
  which they were first seen.
\<close>

record FunctionType =
  params :: "ValueType list"
  results :: "ValueType list"

record FunctionTypeMap =
  list_m :: "FunctionType list"
  deferred_list_m :: "FunctionType list"

definition BeginModule :: FunctionTypeMap where
  "BeginModule = \<lparr>list_m = [], deferred_list_m = []\<rparr>"

definition Define :: "FunctionType \<Rightarrow> FunctionTypeMap \<Rightarrow> FunctionTypeMap" where
  "Define ft m = m\<lparr>list_m := list_m m @ [ft]\<rparr>"

fun index_of :: "'a \<Rightarrow> 'a list \<Rightarrow> nat option" where
  "index_of x [] = None"
| "index_of x (y # ys) = (if x = y then Some 0 else map_option Suc (index_of x ys))"

definition Use :: "FunctionType \<Rightarrow> FunctionTypeMap \<Rightarrow> nat option \<times> FunctionTypeMap" where
  "Use ft m =
     (case index_of ft (list_m m) of
        Some i \<Rightarrow> (Some i, m)
      | None \<Rightarrow>
          (None,
           if ft \<in> set (deferred_list_m m) then m
           else m\<lparr>deferred_list_m := deferred_list_m m @ [ft]\<rparr>))"

definition EndModule :: "FunctionTypeMap \<Rightarrow> FunctionTypeMap" where
  "EndModule m = \<lparr>list_m = list_m m @ deferred_list_m m, deferred_list_m = []\<rparr>"

definition Size :: "FunctionTypeMap \<Rightarrow> nat" where
  "Size m = length (list_m m)"

definition Get :: "FunctionTypeMap \<Rightarrow> nat \<Rightarrow> FunctionType option" where
  "Get m i = (if i < Size m then Some (list_m m ! i) else None)"

text \<open>
  What a module does to the map before \<open>EndModule\<close>: explicit definitions and uses of
  anonymous types, in source order.
\<close>

datatype TypeOp = DefineOp FunctionType | UseOp FunctionType

fun apply_ops :: "TypeOp list \<Rightarrow> FunctionTypeMap \<Rightarrow> FunctionTypeMap" where
  "apply_ops [] m = m"
| "apply_ops (DefineOp ft # ops) m = apply_ops ops (Define ft m)"
| "apply_ops (UseOp ft # ops) m = apply_ops ops (snd (Use ft m))"

fun defined_by :: "TypeOp list \<Rightarrow> FunctionType list" where
  "defined_by [] = []"
| "defined_by (DefineOp ft # ops) = ft # defined_by ops"
| "defined_by (UseOp ft # ops) = defined_by ops"

section \<open>Folded expressions of the text format\<close>

text \<open>
  Modelled from the spec: \<open>ReadExpression\<close>, \<open>ReadExpressionList\<close> and
  \<open>ReadInstructionList\<close> (the text reader) are missing; only their tests are in
  read_test.cc. Section 4.4 of the specification: a recursive descent over the tokens;
  a folded expression \<open>(instr operand ...)\<close> reads the head instruction with its
  immediates, then the operands, which emit their instructions first, then emits the
  head; \<open>(if cond (then ...) (else ...))\<close> emits the condition, \<open>if\<close>, the then-body,
  \<open>else\<close> and the else-body when there is one, and \<open>end\<close> at the closing
  parenthesis. The model keeps what the claim is about: parentheses, keywords and
  literal immediates; labels, block types and the other block instructions are left
  out. The recursion of the parser is bounded by a fuel argument: \<open>None\<close> is a failed
  parse or fuel that ran out.
\<close>

datatype TextToken = T_Lpar | T_Rpar | T_Keyword string | T_Literal string

datatype TextOpcode = Op string | Op_If | Op_Else | Op_End

type_synonym TextInstruction = "TextOpcode \<times> string list"

definition structural_keywords :: "string list" where
  "structural_keywords =
     [''block'', ''loop'', ''if'', ''then'', ''else'', ''end'', ''try'', ''catch'']"

definition IsPlainKeyword :: "string \<Rightarrow> bool" where
  "IsPlainKeyword kw \<longleftrightarrow> kw \<notin> set structural_keywords"

fun IsExpression :: "TextToken list \<Rightarrow> bool" where
  "IsExpression (T_Lpar # T_Keyword kw # ts) \<longleftrightarrow> IsPlainKeyword kw \<or> kw = ''if''"
| "IsExpression ts \<longleftrightarrow> False"

fun literal_of :: "TextToken \<Rightarrow> string option" where
  "literal_of (T_Literal s) = Some s"
| "literal_of t = None"

fun ReadImmediates :: "TextToken list \<Rightarrow> string list \<times> TextToken list" where
  "ReadImmediates (T_Literal s # ts) = (case ReadImmediates ts of (imms, rest) \<Rightarrow> (s # imms, rest))"
| "ReadImmediates ts = ([], ts)"

fun ReadExpression :: "nat \<Rightarrow> TextToken list \<Rightarrow> (TextInstruction list \<times> TextToken list) option"
  and ReadExpressionList :: "nat \<Rightarrow> TextToken list \<Rightarrow> (TextInstruction list \<times> TextToken list) option"
  and ReadInstructionList :: "nat \<Rightarrow> TextToken list \<Rightarrow> (TextInstruction list \<times> TextToken list) option"
  where
  "ReadExpression 0 ts = None"
| "ReadExpression (Suc n) ts =
     (case ts of
        T_Lpar # T_Keyword kw # ts \<Rightarrow>
          if IsPlainKeyword kw then
            (case ReadImmediates ts of (imms, ts) \<Rightarrow>
             case ReadExpressionList n ts of
               Some (out, T_Rpar # ts) \<Rightarrow> Some (out @ [(Op kw, imms)], ts)
             | _ \<Rightarrow> None)
          else if kw = ''if'' then
            (case ReadExpressionList n ts of
               Some (out, T_Lpar # T_Keyword kw_then # ts) \<Rightarrow>
                 if kw_then \<noteq> ''then'' then None
                 else
                   (case ReadInstructionList n ts of
                      Some (then_body, T_Rpar # T_Lpar # T_Keyword kw_else # ts) \<Rightarrow>
                        if kw_else \<noteq> ''else'' then None
                        else
                          (case ReadInstructionList n ts of
                             Some (else_body, T_Rpar # T_Rpar # ts) \<Rightarrow>
                               Some (out @ [(Op_If, [])] @ then_body @ [(Op_Else, [])]
                                     @ else_body @ [(Op_End, [])], ts)
                           | _ \<Rightarrow> None)
                    | Some (then_body, T_Rpar # T_Rpar # ts) \<Rightarrow>
                        Some (out @ [(Op_If, [])] @ then_body @ [(Op_End, [])], ts)
                    | _ \<Rightarrow> None)
             | _ \<Rightarrow> None)
          else None
      | _ \<Rightarrow> None)"
| "ReadExpressionList 0 ts = None"
| "ReadExpressionList (Suc n) ts =
     (if IsExpression ts then
        (case ReadExpression n ts of
           Some (out, ts) \<Rightarrow>
             (case ReadExpressionList n ts of
                Some (out', ts) \<Rightarrow> Some (out @ out', ts)
              | None \<Rightarrow> None)
         | None \<Rightarrow> None)
      else Some ([], ts))"
| "ReadInstructionList 0 ts = None"
| "ReadInstructionList (Suc n) ts =
     (case ts of
        T_Keyword kw # ts' \<Rightarrow>
          if IsPlainKeyword kw then
            (case ReadImmediates ts' of (imms, ts') \<Rightarrow>
             case ReadInstructionList n ts' of
               Some (out, ts') \<Rightarrow> Some ((Op kw, imms) # out, ts')
             | None \<Rightarrow> None)
          else Some ([], ts)
      | _ \<Rightarrow>
          if IsExpression ts then
            (case ReadExpression n ts of
               Some (out, ts) \<Rightarrow>
                 (case ReadInstructionList n ts of
                    Some (out', ts) \<Rightarrow> Some (out @ out', ts)
                  | None \<Rightarrow> None)
             | None \<Rightarrow> None)
          else Some ([], ts))"

text \<open>
  The shape of the input in the words of the specification: an instruction written
  plainly, a folded expression with its operands, or a folded \<open>if\<close>; \<open>tokens_of\<close>
  writes it as tokens and \<open>flatten\<close> is the order of emission that the
  specification describes.
\<close>

datatype folded =
  Plain string "string list"
  | Folded string "string list" "folded list"
  | FoldedIf "folded list" "folded list" "folded list option"

fun tokens_of :: "folded \<Rightarrow> TextToken list" where
  "tokens_of (Plain kw imms) = T_Keyword kw # map T_Literal imms"
| "tokens_of (Folded kw imms operands) =
     [T_Lpar, T_Keyword kw] @ map T_Literal imms @ concat (map tokens_of operands) @ [T_Rpar]"
| "tokens_of (FoldedIf cond then_body else_body) =
     [T_Lpar, T_Keyword ''if''] @ concat (map tokens_of cond)
     @ [T_Lpar, T_Keyword ''then''] @ concat (map tokens_of then_body) @ [T_Rpar]
     @ (case else_body of
          None \<Rightarrow> []
        | Some body \<Rightarrow> [T_Lpar, T_Keyword ''else''] @ concat (map tokens_of body) @ [T_Rpar])
     @ [T_Rpar]"

fun flatten :: "folded \<Rightarrow> TextInstruction list" where
  "flatten (Plain kw imms) = [(Op kw, imms)]"
| "flatten (Folded kw imms operands) = concat (map flatten operands) @ [(Op kw, imms)]"
| "flatten (FoldedIf cond then_body else_body) =
     concat (map flatten cond) @ [(Op_If, [])] @ concat (map flatten then_body)
     @ (case else_body of
          None \<Rightarrow> []
        | Some body \<Rightarrow> [(Op_Else, [])] @ concat (map flatten body))
     @ [(Op_End, [])]"

text \<open>
  Operands and conditions are folded expressions; a body may also hold plain
  instructions; an instruction keyword is none of the structural keywords.
\<close>

fun is_folded :: "folded \<Rightarrow> bool" where
  "is_folded (Plain kw imms) \<longleftrightarrow> False"
| "is_folded e \<longleftrightarrow> True"

fun well_formed :: "folded \<Rightarrow> bool" where
  "well_formed (Plain kw imms) \<longleftrightarrow> IsPlainKeyword kw"
| "well_formed (Folded kw imms operands) \<longleftrightarrow>
     IsPlainKeyword kw \<and> (\<forall>e \<in> set operands. is_folded e \<and> well_formed e)"
| "well_formed (FoldedIf cond then_body else_body) \<longleftrightarrow>
     (\<forall>e \<in> set cond. is_folded e \<and> well_formed e)
     \<and> (\<forall>e \<in> set then_body. well_formed e)
     \<and> (case else_body of None \<Rightarrow> True | Some body \<Rightarrow> \<forall>e \<in> set body. well_formed e)"


text \<open>A parser succeeds on an input when every large enough fuel gives the result.\<close>

definition parses ::
  "(nat \<Rightarrow> TextToken list \<Rightarrow> 'r option) \<Rightarrow> TextToken list \<Rightarrow> 'r \<Rightarrow> bool" where
  "parses f ts r \<longleftrightarrow> (\<exists>N. \<forall>n \<ge> N. f n ts = Some r)"

fun no_literal :: "TextToken list \<Rightarrow> bool" where
  "no_literal (T_Literal s # ts) \<longleftrightarrow> False"
| "no_literal ts \<longleftrightarrow> True"

section \<open>Properties of the LEB128 reader\<close>

lemma cont_bit: "(byte :: u8) AND 0x80 = 0 \<longleftrightarrow> \<not> bit byte 7"
proof -
  have "(0x80 :: u8) = push_bit 7 1" by simp
  then show ?thesis
    by (metis and.commute bit_iff_and_push_bit_not_eq_0 push_bit_of_1)
qed

lemma kUsed_bounds: "0 < bits \<Longrightarrow> 1 \<le> kUsedBitsInLastByte bits \<and> kUsedBitsInLastByte bits \<le> 7"
  unfolding kUsedBitsInLastByte_def kMaxBytes_def by presburger

lemma kMask_eq: "kMask s bits = NOT (mask (kMaskBits s bits))"
  by (simp add: kMask_def mask_eq_exp_minus_1)

lemma and_not_mask_zero:
  "(byte :: u8) AND NOT (mask k) = 0 \<longleftrightarrow> (\<forall>j \<in> {k..<8}. \<not> bit byte j)"
  by (auto simp: bit_eq_iff bit_and_iff bit_not_iff bit_mask_iff dest: bit_imp_le_length)

lemma and_not_mask_ones:
  assumes "k \<le> 7"
  shows "(byte :: u8) AND NOT (mask k) = NOT (mask k) AND 0x7f \<longleftrightarrow>
     (\<forall>j \<in> {k..<7}. bit byte j) \<and> \<not> bit byte 7"
proof -
  have m: "(0x7f :: u8) = mask 7" by (simp add: mask_eq_exp_minus_1)
  have "(byte AND NOT (mask k) = NOT (mask k) AND mask 7) \<longleftrightarrow>
        (\<forall>n<8. (bit byte n \<and> \<not> n < k) = (\<not> n < k \<and> n < 7))"
    by (auto simp: bit_eq_iff bit_and_iff bit_not_iff bit_mask_iff dest: bit_imp_le_length)
  also have "\<dots> \<longleftrightarrow> (\<forall>j \<in> {k..<7}. bit byte j) \<and> \<not> bit byte 7"
  proof
    assume h: "\<forall>n<8. (bit byte n \<and> \<not> n < k) = (\<not> n < k \<and> n < 7)"
    have "\<not> bit byte 7" using h [rule_format, of 7] assms by auto
    moreover have "\<forall>j \<in> {k..<7}. bit byte j"
    proof
      fix j assume "j \<in> {k..<7}"
      then show "bit byte j" using h [rule_format, of j] by auto
    qed
    ultimately show "(\<forall>j \<in> {k..<7}. bit byte j) \<and> \<not> bit byte 7" by blast
  next
    assume h: "(\<forall>j \<in> {k..<7}. bit byte j) \<and> \<not> bit byte 7"
    show "\<forall>n<8. (bit byte n \<and> \<not> n < k) = (\<not> n < k \<and> n < 7)"
    proof (intro allI impI)
      fix n :: nat assume "n < 8"
      then have "n = 7 \<or> n < 7" by arith
      then show "(bit byte n \<and> \<not> n < k) = (\<not> n < k \<and> n < 7)"
        using h by auto
    qed
  qed
  finally show ?thesis unfolding m .
qed

lemma final_check_iff:
  assumes "0 < bits"
  shows "final_check s bits byte \<longleftrightarrow> final_byte_ok s bits byte"
proof -
  let ?u = "kUsedBitsInLastByte bits"
  from kUsed_bounds [OF assms] have u: "1 \<le> ?u" "?u \<le> 7" by auto
  have split8: "(\<forall>j \<in> {k..<8}. P j) \<longleftrightarrow> (\<forall>j \<in> {k..<7}. P j) \<and> P (7::nat)"
    if "k \<le> 7" for k and P :: "nat \<Rightarrow> bool"
  proof -
    have "{k..<8} = insert 7 {k..<7}" using that by auto
    then show ?thesis by auto
  qed
  show ?thesis
  proof (cases s)
    case False
    then show ?thesis
      using u by (auto simp: final_check_def final_byte_ok_def kMask_eq kMaskBits_def
          and_not_mask_zero split8)
  next
    case True
    have ku: "kMaskBits True bits = ?u - 1" by (simp add: kMaskBits_def)
    have k7: "?u - 1 \<le> 7" using u by arith
    have eq: "{?u - 1..<7} = insert (?u - 1) {?u..<7}" using u by auto
    have A: "(\<forall>j \<in> {?u - 1..<7}. \<not> bit byte j) \<longleftrightarrow>
             \<not> bit byte (?u - 1) \<and> (\<forall>j \<in> {?u..<7}. \<not> bit byte j)"
      unfolding eq by simp
    have B: "(\<forall>j \<in> {?u - 1..<7}. bit byte j) \<longleftrightarrow>
             bit byte (?u - 1) \<and> (\<forall>j \<in> {?u..<7}. bit byte j)"
      unfolding eq by simp
    have "final_check True bits byte \<longleftrightarrow>
            ((\<forall>j \<in> {?u - 1..<7}. \<not> bit byte j) \<and> \<not> bit byte 7)
          \<or> ((\<forall>j \<in> {?u - 1..<7}. bit byte j) \<and> \<not> bit byte 7)"
      using k7 by (simp add: final_check_def kMask_eq ku kOnes_def
          and_not_mask_zero and_not_mask_ones split8)
    also have "\<dots> \<longleftrightarrow> final_byte_ok True bits byte"
      unfolding A B final_byte_ok_def by auto
    finally show ?thesis using True by simp
  qed
qed


lemma ReadVarInt_loop_spec:
  fixes r :: "'a::len word"
  assumes "i < kMaxBytes LENGTH('a)" and "ReadVarInt_loop s i r data = (res, rest)"
  shows "\<exists>pre. data = pre @ rest \<and> length pre \<le> kMaxBytes LENGTH('a) - i \<and>
     (if length pre = kMaxBytes LENGTH('a) - i
      then res \<noteq> None \<longleftrightarrow> final_check s LENGTH('a) (last pre)
      else (res = None \<and> rest = [] \<and> (\<forall>b \<in> set pre. bit b 7))
         \<or> (res \<noteq> None \<and> pre \<noteq> [] \<and> \<not> bit (last pre) 7))"
  using assms
proof (induction data arbitrary: i r)
  case Nil
  then show ?case by auto
next
  case (Cons byte data)
  let ?m = "kMaxBytes LENGTH('a)"
  let ?r = "r OR push_bit (i * 7) (ucast (byte AND 0x7f))"
  show ?case
  proof (cases "i + 1 = ?m")
    case True
    with Cons.prems(2) have "rest = data"
      and "res \<noteq> None \<longleftrightarrow> final_check s LENGTH('a) byte"
      by (auto simp: Let_def final_check_def split: if_splits)
    with True show ?thesis by (intro exI [of _ "[byte]"]) auto
  next
    case notlast: False
    show ?thesis
    proof (cases "byte AND 0x80 = 0")
      case True
      with notlast Cons.prems(2) have "rest = data" "res \<noteq> None"
        by (auto simp: Let_def split: if_splits)
      moreover have "\<not> bit byte 7" using True by (simp add: cont_bit)
      moreover have "1 < ?m - i" using notlast Cons.prems(1) by arith
      ultimately show ?thesis by (intro exI [of _ "[byte]"]) auto
    next
      case False
      then have b7: "bit byte 7" by (simp add: cont_bit)
      from False notlast Cons.prems(2)
      have rec: "ReadVarInt_loop s (i + 1) ?r data = (res, rest)"
        by (simp add: Let_def)
      have lt: "i + 1 < ?m" using notlast Cons.prems(1) by arith
      from Cons.IH [OF lt rec] obtain pre where pre:
        "data = pre @ rest" "length pre \<le> ?m - (i + 1)"
        "if length pre = ?m - (i + 1)
         then res \<noteq> None \<longleftrightarrow> final_check s LENGTH('a) (last pre)
         else (res = None \<and> rest = [] \<and> (\<forall>b \<in> set pre. bit b 7))
            \<or> (res \<noteq> None \<and> pre \<noteq> [] \<and> \<not> bit (last pre) 7)"
        by blast
      have len: "length (byte # pre) = ?m - i \<longleftrightarrow> length pre = ?m - (i + 1)"
        using lt by auto
      have "if length (byte # pre) = ?m - i
         then res \<noteq> None \<longleftrightarrow> final_check s LENGTH('a) (last (byte # pre))
         else (res = None \<and> rest = [] \<and> (\<forall>b \<in> set (byte # pre). bit b 7))
            \<or> (res \<noteq> None \<and> byte # pre \<noteq> [] \<and> \<not> bit (last (byte # pre)) 7)"
      proof (cases "length pre = ?m - (i + 1)")
        case True
        then have "pre \<noteq> []" using lt by auto
        with True pre(3) len show ?thesis by simp
      next
        case False
        with pre(3) len b7 show ?thesis by auto
      qed
      moreover have "byte # data = (byte # pre) @ rest" using pre(1) by simp
      moreover have "length (byte # pre) \<le> ?m - i" using pre(2) lt by simp
      ultimately show ?thesis by blast
    qed
  qed
qed

lemma kMaxBytes_pos: "0 < bits \<Longrightarrow> 0 < kMaxBytes bits"
  unfolding kMaxBytes_def by presburger


text \<open>
  Claim C1, as amended. For every target width (in particular 32 and 64) and either
  signedness, \<open>ReadVarInt\<close> consumes a prefix \<open>pre\<close> of the input of at most
  \<open>kMaxBytes = (W + 6) div 7\<close> bytes (5 for 32 bits, 10 for 64 bits). If it consumes
  that many, it succeeds exactly when the last byte read has its continuation bit clear
  and its unused bits all zero (unsigned, non-negative signed) or all one (negative
  signed). If it consumes fewer, it fails exactly when the input is exhausted and every
  byte of it has the continuation bit set. Every failure is the same \<open>nullopt\<close>:
  the result carries no kind of failure.
\<close>

theorem ReadVarInt_bytes:
  fixes res :: "'a::len word option"
  assumes run: "ReadVarInt is_signed data = (res, rest)"
  shows "(\<exists>pre. data = pre @ rest \<and> length pre \<le> kMaxBytes LENGTH('a) \<and>
            (length pre = kMaxBytes LENGTH('a) \<longrightarrow>
               (res \<noteq> None \<longleftrightarrow> final_byte_ok is_signed LENGTH('a) (last pre))) \<and>
            (length pre < kMaxBytes LENGTH('a) \<longrightarrow>
               (res = None \<longleftrightarrow> rest = [] \<and> (\<forall>b \<in> set data. bit b 7))))
       \<and> ((\<forall>b \<in> set data. bit b 7) \<and> length data < kMaxBytes LENGTH('a) \<longrightarrow>
            res = None \<and> rest = [])"
proof -
  let ?m = "kMaxBytes LENGTH('a)"
  have pos: "0 < ?m" by (rule kMaxBytes_pos) simp
  from run have loop: "ReadVarInt_loop is_signed 0 (0 :: 'a word) data = (res, rest)"
    by (simp add: ReadVarInt_def)
  from ReadVarInt_loop_spec [OF pos loop] obtain pre where pre:
    "data = pre @ rest" "length pre \<le> ?m"
    "if length pre = ?m
     then res \<noteq> None \<longleftrightarrow> final_check is_signed LENGTH('a) (last pre)
     else (res = None \<and> rest = [] \<and> (\<forall>b \<in> set pre. bit b 7))
        \<or> (res \<noteq> None \<and> pre \<noteq> [] \<and> \<not> bit (last pre) 7)"
    unfolding diff_zero by blast
  have ok: "final_check is_signed LENGTH('a) b \<longleftrightarrow> final_byte_ok is_signed LENGTH('a) b" for b
    by (rule final_check_iff) simp
  have 1: "length pre = ?m \<longrightarrow> (res \<noteq> None \<longleftrightarrow> final_byte_ok is_signed LENGTH('a) (last pre))"
    using pre(3) unfolding ok by (cases "length pre = ?m") simp_all
  have 2: "length pre < ?m \<longrightarrow> (res = None \<longleftrightarrow> rest = [] \<and> (\<forall>b \<in> set data. bit b 7))"
  proof
    assume "length pre < ?m"
    with pre(3) have alt: "(res = None \<and> rest = [] \<and> (\<forall>b \<in> set pre. bit b 7))
        \<or> (res \<noteq> None \<and> pre \<noteq> [] \<and> \<not> bit (last pre) 7)" by auto
    show "res = None \<longleftrightarrow> rest = [] \<and> (\<forall>b \<in> set data. bit b 7)"
    proof
      assume "res = None"
      with alt pre(1) show "rest = [] \<and> (\<forall>b \<in> set data. bit b 7)" by auto
    next
      assume h: "rest = [] \<and> (\<forall>b \<in> set data. bit b 7)"
      show "res = None"
      proof (rule ccontr)
        assume "res \<noteq> None"
        with alt have "pre \<noteq> []" "\<not> bit (last pre) 7" by auto
        moreover from this(1) have "last pre \<in> set data" using pre(1) by simp
        ultimately show False using h by blast
      qed
    qed
  qed
  have 3: "(\<forall>b \<in> set data. bit b 7) \<and> length data < ?m \<longrightarrow> res = None \<and> rest = []"
  proof
    assume h: "(\<forall>b \<in> set data. bit b 7) \<and> length data < ?m"
    then have "length pre < ?m" using pre(1) by simp
    with pre(3) have alt: "(res = None \<and> rest = [] \<and> (\<forall>b \<in> set pre. bit b 7))
        \<or> (res \<noteq> None \<and> pre \<noteq> [] \<and> \<not> bit (last pre) 7)" by auto
    show "res = None \<and> rest = []"
    proof (rule ccontr)
      assume "\<not> (res = None \<and> rest = [])"
      with alt have "pre \<noteq> []" "\<not> bit (last pre) 7" by auto
      moreover from this(1) have "last pre \<in> set data" using pre(1) by simp
      ultimately show False using h by blast
    qed
  qed
  have "data = pre @ rest \<and> length pre \<le> ?m \<and>
        (length pre = ?m \<longrightarrow>
           (res \<noteq> None \<longleftrightarrow> final_byte_ok is_signed LENGTH('a) (last pre))) \<and>
        (length pre < ?m \<longrightarrow>
           (res = None \<longleftrightarrow> rest = [] \<and> (\<forall>b \<in> set data. bit b 7)))"
    by (intro conjI) (fact pre(1) pre(2) 1 2)+
  then have ex: "\<exists>pre. data = pre @ rest \<and> length pre \<le> ?m \<and>
        (length pre = ?m \<longrightarrow>
           (res \<noteq> None \<longleftrightarrow> final_byte_ok is_signed LENGTH('a) (last pre))) \<and>
        (length pre < ?m \<longrightarrow>
           (res = None \<longleftrightarrow> rest = [] \<and> (\<forall>b \<in> set data. bit b 7)))"
    by (rule exI)
  from ex 3 show ?thesis by (rule conjI)
qed

theorem ReadVarInt_bytes_witness:
  "ReadVarInt False [0xff, 0xff, 0xff, 0xff, 0x0f, 0x03] = (Some (0xffffffff :: u32), [0x03])
   \<and> kMaxBytes 32 = 5 \<and> kMaxBytes 64 = 10
   \<and> final_byte_ok False 32 0x0f
   \<and> ReadVarInt True [0xff, 0xff] = (None :: u32 option, [])
   \<and> bit (0xff :: u8) 7"
proof -
  have run: "ReadVarInt False [0xff, 0xff, 0xff, 0xff, 0x0f, 0x03] = (Some (0xffffffff :: u32), [0x03])"
    by (simp add: ReadVarInt_def kMaxBytes_def kMask_def kMaskBits_def
        kUsedBitsInLastByte_def kOnes_def)
  have k: "kMaxBytes 32 = 5" "kMaxBytes 64 = 10" by (simp_all add: kMaxBytes_def)
  have len: "LENGTH(32) = 32" by simp
  from ReadVarInt_bytes [OF run] obtain pre where pre:
    "[0xff, 0xff, 0xff, 0xff, 0x0f, 0x03] = pre @ [0x03 :: u8]"
    "length pre = kMaxBytes LENGTH(32) \<longrightarrow>
       (Some (0xffffffff :: u32) \<noteq> None \<longleftrightarrow> final_byte_ok False LENGTH(32) (last pre))"
    by blast
  from pre(1) have p: "pre = [0xff, 0xff, 0xff, 0xff, 0x0f]" by simp
  have ok: "final_byte_ok False 32 0x0f"
    using pre(2) unfolding p len k by simp
  have b7: "bit (0xff :: u8) 7" by simp
  obtain res :: "u32 option" and rest where short: "ReadVarInt True [0xff, 0xff] = (res, rest)"
    by (rule prod.exhaust)
  have all: "\<forall>b \<in> set [0xff, 0xff :: u8]. bit b 7" by simp
  have "length [0xff, 0xff :: u8] < kMaxBytes LENGTH(32)" unfolding len k by simp
  with ReadVarInt_bytes [OF short] all have "res = None \<and> rest = []" by blast
  with short have none: "ReadVarInt True [0xff, 0xff] = (None :: u32 option, [])" by simp
  show ?thesis
    by (intro conjI) (fact run k ok none b7)+
qed

text \<open>
  Claim C1 as stated names two failures, \<open>IntegerTooLarge\<close> and \<open>UnexpectedEnd\<close>.
  The source returns \<open>absl::nullopt\<close> for both: an integer whose fifth byte has a
  bit set above the 32 used ones and an integer cut off after four bytes give the very
  same result.
\<close>

theorem ReadVarInt_failure_kind_counterexample:
  "(ReadVarInt False [0xff, 0xff, 0xff, 0xff, 0x1f] :: u32 option \<times> SpanU8)
     = ReadVarInt False [0xff, 0xff, 0xff, 0xff]
   \<and> (ReadVarInt False [0xff, 0xff, 0xff, 0xff, 0x1f] :: u32 option \<times> SpanU8) = (None, [])"
  by (simp add: ReadVarInt_def kMaxBytes_def kMask_def kMaskBits_def
      kUsedBitsInLastByte_def kOnes_def)

section \<open>Properties of the Limits readers\<close>

lemmas leb_eval = ReadVarU32_def ReadVarInt_def kMaxBytes_def kMask_def kMaskBits_def
  kUsedBitsInLastByte_def kOnes_def

lemmas err_eval = Read_Limits_def READ_CONTEXT_def Read_u8_def Read_u32_def HandlePushContext_def
  HandlePopContext_def HandleOnError_def Flags_NoMax_def Flags_HasMax_def

lemma ReadLimits_HasMax:
  "ReadLimits [0x01, 0x01, 0x02] = (Some \<lparr>min_l = 1, max_l = Some 2\<rparr>, [])"
  by (simp add: ReadLimits_def leb_eval)

lemma ReadLimits_NoMax:
  "ReadLimits [0x00, 0x05] = (Some \<lparr>min_l = 5, max_l = None\<rparr>, [])"
  by (simp add: ReadLimits_def leb_eval)

lemma ReadLimits_flags_2:
  "ReadLimits [0x02, 0x01, 0x02] = (Some \<lparr>min_l = 1, max_l = None\<rparr>, [0x02])"
  by (simp add: ReadLimits_def leb_eval)

lemma Read_Limits_HasMax:
  "Read_Limits [0x01, 0x01, 0x02] errs = (Some \<lparr>min_l = 1, max_l = Some 2\<rparr>, [], errs)"
  by (simp add: err_eval leb_eval)

lemma Read_Limits_NoMax:
  "Read_Limits [0x00, 0x05] errs = (Some \<lparr>min_l = 5, max_l = None\<rparr>, [], errs)"
  by (simp add: err_eval leb_eval)

lemma Read_Limits_flags_2:
  "Read_Limits [0x02, 0x01, 0x02] errs =
     (None, [0x01, 0x02],
      errs\<lparr>errors := errors errs @
        [context_stack errs @
           [([0x02, 0x01, 0x02], ''limits''), ([0x01, 0x02], ''Invalid flags value: 2'')]]\<rparr>)"
  by (simp add: err_eval leb_eval)

text \<open>
  Claim C2. Reading Limits from the bytes 01 01 02 gives \<open>Limits{1, 2}\<close>, from 00 05 it
  gives \<open>Limits{5}\<close>, and from 02 01 02 it reports the error
  \<open>Invalid flags value: 2\<close> in the context \<open>limits\<close> and returns no Limits.
  \<open>Read<Limits>\<close> of read_limits.h does all three. \<open>ReadLimits\<close> of reader-inl.h
  agrees on the first two inputs, but on 02 01 02 it tests only bit 0 of the flags:
  it returns \<open>Limits{1}\<close> and leaves the byte 02 unread.
\<close>

theorem ReadLimits_flags_2_accepted:
  "Read_Limits [0x01, 0x01, 0x02] \<lparr>context_stack = [], errors = []\<rparr>
     = (Some \<lparr>min_l = 1, max_l = Some 2\<rparr>, [], \<lparr>context_stack = [], errors = []\<rparr>)
   \<and> Read_Limits [0x00, 0x05] \<lparr>context_stack = [], errors = []\<rparr>
     = (Some \<lparr>min_l = 5, max_l = None\<rparr>, [], \<lparr>context_stack = [], errors = []\<rparr>)
   \<and> Read_Limits [0x02, 0x01, 0x02] \<lparr>context_stack = [], errors = []\<rparr>
     = (None, [0x01, 0x02],
        \<lparr>context_stack = [],
         errors = [[([0x02, 0x01, 0x02], ''limits''),
                    ([0x01, 0x02], ''Invalid flags value: 2'')]]\<rparr>)
   \<and> ReadLimits [0x01, 0x01, 0x02] = (Some \<lparr>min_l = 1, max_l = Some 2\<rparr>, [])
   \<and> ReadLimits [0x00, 0x05] = (Some \<lparr>min_l = 5, max_l = None\<rparr>, [])
   \<and> ReadLimits [0x02, 0x01, 0x02] = (Some \<lparr>min_l = 1, max_l = None\<rparr>, [0x02])"
  by (simp add: Read_Limits_HasMax Read_Limits_NoMax Read_Limits_flags_2
      ReadLimits_HasMax ReadLimits_NoMax ReadLimits_flags_2)

text \<open>
  Claim C7. Reading a Memory from the empty input reports exactly one error. The error
  holds every frame that is on the context stack when it is reported (the frames
  \<open>context_stack errs\<close> that the caller had pushed, if any), then the frames
  \<open>memory\<close>, \<open>memory type\<close>, \<open>limits\<close> and \<open>flags\<close> in this order, then the message
  \<open>Unable to read u8\<close>; all of them are at offset 0 of the input. The read returns
  no Memory and leaves the context stack as it found it.
\<close>

theorem Read_Memory_PastEnd:
  "Read_Memory [] errs =
     (None, [],
      errs\<lparr>errors := errors errs @
        [context_stack errs @
           [([], ''memory''), ([], ''memory type''), ([], ''limits''), ([], ''flags''),
            ([], ''Unable to read u8'')]]\<rparr>)
   \<and> Read_Memory [] \<lparr>context_stack = [], errors = []\<rparr> =
     (None, [],
      \<lparr>context_stack = [],
       errors = [[([], ''memory''), ([], ''memory type''), ([], ''limits''), ([], ''flags''),
                  ([], ''Unable to read u8'')]]\<rparr>)
   \<and> pos_in [] [] = 0"
  by (simp add: Read_Memory_def Read_MemoryType_def err_eval pos_in_def)

section \<open>Properties of ReadExpr\<close>
































section \<open>Properties of ReadModule\<close>

lemma ReadModule_short_magic:
  "length data < 4 \<Longrightarrow> ReadModule zero ToString hooks data h = Inl DerefOfNullopt"
  by (simp add: ReadModule_def ReadBytes_def deref_def)

lemma ReadModule_short_version:
  "length data < 4 \<Longrightarrow> ReadModule zero ToString hooks (Magic @ data) h = Inl DerefOfNullopt"
  by (simp add: ReadModule_def ReadBytes_def deref_def Magic_def)

text \<open>
  Claim C9. \<open>ReadModule\<close> should return an error on a magic or version mismatch
  without reading the value of a four-byte read that failed. It does not: when fewer
  than four bytes are left, \<open>ReadBytes\<close> returns \<open>nullopt\<close>, the comparison with
  \<open>kMagic\<close> (or \<open>kVersion\<close>) finds a mismatch, and the error branch dereferences the
  empty optional to format its message. With all eight bytes present and a wrong
  magic, the branch is sound and the result is \<open>Error\<close>.
\<close>

theorem ReadModule_deref_nullopt:
  "ReadModule zero ToString hooks [] h = Inl DerefOfNullopt
   \<and> ReadModule zero ToString hooks [0x00, 0x61, 0x73] h = Inl DerefOfNullopt
   \<and> ReadModule zero ToString hooks [0x00, 0x61, 0x73, 0x6d, 0x01, 0x00, 0x00] h = Inl DerefOfNullopt
   \<and> ReadModule zero ToString hooks [0x00, 0x61, 0x73, 0x6d, 0x01, 0x00, 0x00, 0x00] h = Inr (Ok, h)
   \<and> ReadModule zero ToString hooks [0x00, 0x61, 0x73, 0x6e] h
       = Inr (Error, OnError hooks (''Magic mismatch: expected '' @ ToString Magic @ '', got ''
                                    @ ToString [0x00, 0x61, 0x73, 0x6e]) h)"
  by (simp add: ReadModule_def ReadBytes_def deref_def Magic_def Version_def)

section \<open>Properties of the tokenizer\<close>

lemma Read_spec:
  assumes "cache_ok t"
  shows "fst (Read L t) = nth_token L t 0"
    and "cache_ok (snd (Read L t))"
    and "nth_token L (snd (Read L t)) i = nth_token L t (Suc i)"
  using assms
  by (auto simp: Read_def cache_ok_def nth_token_def Let_def split: prod.splits)

lemma Peek0_spec:
  assumes "cache_ok t"
  shows "\<exists>t0. Peek L 0 t = Inr (nth_token L t 0, t0) \<and> cache_ok t0
          \<and> (\<forall>i. nth_token L t0 i = nth_token L t i)"
proof (cases "count_m t = 0")
  case True
  obtain cur annots d where l: "L (data_m t) = ((cur, annots), d)" by (metis prod.exhaust)
  let ?t0 = "t\<lparr>data_m := d, annots_m := annots_m t @ annots,
                 tokens_m := (tokens_m t)(current_m t := cur), count_m := count_m t + 1\<rparr>"
  have "Peek L 0 t = Inr (cur, ?t0)" using True l by (simp add: Peek_def)
  moreover have "nth_token L t 0 = cur" using True l by (simp add: nth_token_def)
  moreover have "cache_ok ?t0" using True by (simp add: cache_ok_def)
  moreover have "nth_token L ?t0 i = nth_token L t i" for i
  proof (cases i)
    case 0
    with True l show ?thesis by (simp add: nth_token_def)
  next
    case (Suc j)
    with True l show ?thesis by (simp add: nth_token_def)
  qed
  ultimately show ?thesis by auto
next
  case False
  with assms have "Peek L 0 t = Inr (nth_token L t 0, t)"
    by (auto simp: Peek_def nth_token_def cache_ok_def)
  with assms show ?thesis by auto
qed


lemma Peek1_spec:
  assumes "cache_ok t"
  shows "\<exists>t1. Peek L 1 t = Inr (nth_token L t 1, t1) \<and> cache_ok t1 \<and> count_m t1 = 2
          \<and> (\<forall>i. nth_token L t1 i = nth_token L t i)"
proof -
  obtain cur annots d where l: "L (data_m t) = ((cur, annots), d)" by (metis prod.exhaust)
  obtain cur' annots' d' where l': "L d = ((cur', annots'), d')" by (metis prod.exhaust)
  from assms consider "count_m t = 0" | "count_m t = 1" | "count_m t = 2"
    by (auto simp: cache_ok_def)
  then show ?thesis
  proof cases
    case 1
    let ?t1 = "t\<lparr>data_m := d', annots_m := (annots_m t @ annots) @ annots',
                   tokens_m := (tokens_m t)(current_m t := cur, (\<not> current_m t) := cur'),
                   count_m := 2\<rparr>"
    have "Peek L 1 t = Inr (cur', ?t1)" using 1 l l' by (simp add: Peek_def)
    moreover have "nth_token L t 1 = cur'" using 1 l l' by (simp add: nth_token_def)
    moreover have "cache_ok ?t1" "count_m ?t1 = 2" by (simp_all add: cache_ok_def)
    moreover have "nth_token L ?t1 i = nth_token L t i" for i
    proof -
      consider "i = 0" | "i = 1" | j where "i = Suc (Suc j)" by (metis One_nat_def not0_implies_Suc)
      then show ?thesis
        using 1 l l' by cases (simp_all add: nth_token_def)
    qed
    ultimately show ?thesis by auto
  next
    case 2
    let ?t1 = "t\<lparr>data_m := d, annots_m := annots_m t @ annots,
                   tokens_m := (tokens_m t)((\<not> current_m t) := cur), count_m := 2\<rparr>"
    have "Peek L 1 t = Inr (cur, ?t1)" using 2 l by (simp add: Peek_def)
    moreover have "nth_token L t 1 = cur" using 2 l by (simp add: nth_token_def)
    moreover have "cache_ok ?t1" "count_m ?t1 = 2" by (simp_all add: cache_ok_def)
    moreover have "nth_token L ?t1 i = nth_token L t i" for i
    proof -
      consider "i = 0" | "i = 1" | j where "i = Suc (Suc j)" by (metis One_nat_def not0_implies_Suc)
      then show ?thesis
        using 2 l by cases (simp_all add: nth_token_def)
    qed
    ultimately show ?thesis by auto
  next
    case 3
    then have "Peek L 1 t = Inr (nth_token L t 1, t)"
      by (simp add: Peek_def nth_token_def)
    with 3 assms show ?thesis by auto
  qed
qed

lemma upcoming_nth:
  "cache_ok t \<Longrightarrow> upcoming L n t = map (nth_token L t) [0..<n]"
proof (induction n arbitrary: t)
  case 0
  then show ?case by simp
next
  case (Suc n)
  obtain tok t' where r: "Read L t = (tok, t')" by (rule prod.exhaust)
  from Read_spec [OF Suc.prems, of L] r
  have tok: "tok = nth_token L t 0" and ok: "cache_ok t'"
    and sh: "\<And>i. nth_token L t' i = nth_token L t (Suc i)" by simp_all
  have "upcoming L (Suc n) t = nth_token L t 0 # map (nth_token L t') [0..<n]"
    using r tok Suc.IH [OF ok] by simp
  also have "map (nth_token L t') [0..<n] = map (nth_token L t) (map Suc [0..<n])"
    by (simp add: sh)
  also have "nth_token L t 0 # map (nth_token L t) (map Suc [0..<n])
             = map (nth_token L t) [0..<Suc n]"
    by (simp only: map_Suc_upt upt_conv_Cons [of 0 "Suc n"] list.map) 
  finally show ?case .
qed

lemma same_stream:
  "cache_ok t \<Longrightarrow> cache_ok t' \<Longrightarrow> (\<forall>i. nth_token L t' i = nth_token L t i)
   \<Longrightarrow> upcoming L n t' = upcoming L n t"
  by (simp add: upcoming_nth)


lemma Match_spec:
  assumes "cache_ok t"
  shows "\<exists>r tm. Match L tt t = Inr (r, tm) \<and> cache_ok tm \<and>
           (if token_type (nth_token L t 0) = tt
            then r = Some (nth_token L t 0) \<and> (\<forall>i. nth_token L tm i = nth_token L t (Suc i))
            else r = None \<and> (\<forall>i. nth_token L tm i = nth_token L t i))"
proof -
  from Peek0_spec [OF assms, of L] obtain t0 where p:
    "Peek L 0 t = Inr (nth_token L t 0, t0)" "cache_ok t0"
    "\<And>i. nth_token L t0 i = nth_token L t i" by blast
  show ?thesis
  proof (cases "token_type (nth_token L t 0) = tt")
    case False
    with p show ?thesis by (simp add: Match_def)
  next
    case True
    obtain tok t2 where r: "Read L t0 = (tok, t2)" by (rule prod.exhaust)
    from Read_spec [OF p(2), of L] r
    have "tok = nth_token L t0 0" "cache_ok t2" "\<And>i. nth_token L t2 i = nth_token L t0 (Suc i)"
      by simp_all
    with p True r show ?thesis by (simp add: Match_def)
  qed
qed

lemma MatchLpar_spec:
  assumes "cache_ok t"
  shows "\<exists>r tm. MatchLpar L tt t = Inr (r, tm) \<and> cache_ok tm \<and>
           (if token_type (nth_token L t 0) = Lpar \<and> token_type (nth_token L t 1) = tt
            then r = Some (nth_token L t 1)
               \<and> (\<forall>i. nth_token L tm i = nth_token L t (Suc (Suc i)))
            else r = None \<and> (\<forall>i. nth_token L tm i = nth_token L t i))"
proof -
  from Peek0_spec [OF assms, of L] obtain t0 where p0:
    "Peek L 0 t = Inr (nth_token L t 0, t0)" "cache_ok t0"
    "\<And>i. nth_token L t0 i = nth_token L t i" by blast
  from Peek1_spec [OF p0(2), of L] obtain t1 where p1:
    "Peek L 1 t0 = Inr (nth_token L t0 1, t1)" "cache_ok t1"
    "\<And>i. nth_token L t1 i = nth_token L t0 i" by blast
  obtain toka ta where ra: "Read L t1 = (toka, ta)" by (rule prod.exhaust)
  from Read_spec [OF p1(2), of L] ra
  have a: "cache_ok ta" "\<And>i. nth_token L ta i = nth_token L t1 (Suc i)" by simp_all
  obtain tokb tb where rb: "Read L ta = (tokb, tb)" by (rule prod.exhaust)
  from Read_spec [OF a(1), of L] rb
  have b: "tokb = nth_token L ta 0" "cache_ok tb" "\<And>i. nth_token L tb i = nth_token L ta (Suc i)"
    by simp_all
  show ?thesis
  proof (cases "token_type (nth_token L t 0) = Lpar")
    case False
    with p0 show ?thesis by (simp add: MatchLpar_def)
  next
    case lpar: True
    show ?thesis
    proof (cases "token_type (nth_token L t 1) = tt")
      case False
      with lpar p0 p1 show ?thesis by (simp add: MatchLpar_def)
    next
      case True
      with lpar p0 p1 ra rb a b show ?thesis by (simp add: MatchLpar_def)
    qed
  qed
qed

text \<open>
  Claim C8. A tokenizer starts with no cached token, and every operation keeps the
  number of cached tokens between 0 and 2. In every such state: \<open>Peek(0)\<close> returns the
  token that the next \<open>Read()\<close> returns and \<open>Peek(1)\<close> the one that the \<open>Read()\<close>
  after it returns, and neither changes the tokens still to be read; \<open>Match(kind)\<close>
  returns the next token and consumes it exactly when its type is \<open>kind\<close>, and
  otherwise returns none and changes nothing of the token stream; \<open>MatchLpar(kind)\<close>
  returns the second token and consumes both exactly when the next token is \<open>Lpar\<close>
  and the one after it has type \<open>kind\<close>, and otherwise returns none and consumes
  nothing.
\<close>

theorem Tokenizer_lookahead:
  assumes "cache_ok t"
  shows "cache_ok (new_Tokenizer tok data)
       \<and> cache_ok (snd (Read L t))
       \<and> (\<exists>t0. Peek L 0 t = Inr (fst (Read L t), t0) \<and> cache_ok t0
                \<and> (\<forall>n. upcoming L n t0 = upcoming L n t))
       \<and> (\<exists>t1. Peek L 1 t = Inr (fst (Read L (snd (Read L t))), t1) \<and> cache_ok t1
                \<and> (\<forall>n. upcoming L n t1 = upcoming L n t))
       \<and> (\<exists>r tm. Match L tt t = Inr (r, tm) \<and> cache_ok tm \<and>
             (if token_type (fst (Read L t)) = tt
              then r = Some (fst (Read L t))
                 \<and> (\<forall>n. upcoming L n tm = upcoming L n (snd (Read L t)))
              else r = None \<and> (\<forall>n. upcoming L n tm = upcoming L n t)))
       \<and> (\<exists>r tm. MatchLpar L tt t = Inr (r, tm) \<and> cache_ok tm \<and>
             (if token_type (fst (Read L t)) = Lpar
                 \<and> token_type (fst (Read L (snd (Read L t)))) = tt
              then r = Some (fst (Read L (snd (Read L t))))
                 \<and> (\<forall>n. upcoming L n tm = upcoming L n (snd (Read L (snd (Read L t)))))
              else r = None \<and> (\<forall>n. upcoming L n tm = upcoming L n t)))"
proof -
  let ?ta = "snd (Read L t)"
  let ?tb = "snd (Read L ?ta)"
  note ra = Read_spec [OF assms, of L]
  note rb = Read_spec [OF ra(2), of L]
  have tok0: "fst (Read L t) = nth_token L t 0" by (rule ra(1))
  have tok1: "fst (Read L ?ta) = nth_token L t 1" using rb(1) ra(3) [of 0] by simp
  have 1: "cache_ok (new_Tokenizer tok data)" by (simp add: new_Tokenizer_def cache_ok_def)
  have 2: "cache_ok ?ta" by (rule ra(2))
  have 3: "\<exists>t0. Peek L 0 t = Inr (fst (Read L t), t0) \<and> cache_ok t0
                \<and> (\<forall>n. upcoming L n t0 = upcoming L n t)"
  proof -
    from Peek0_spec [OF assms, of L] obtain t0 where p:
      "Peek L 0 t = Inr (nth_token L t 0, t0)" "cache_ok t0"
      "\<forall>i. nth_token L t0 i = nth_token L t i" by blast
    from same_stream [OF assms p(2) p(3)] p(1,2) tok0 show ?thesis by auto
  qed
  have 4: "\<exists>t1. Peek L 1 t = Inr (fst (Read L ?ta), t1) \<and> cache_ok t1
                \<and> (\<forall>n. upcoming L n t1 = upcoming L n t)"
  proof -
    from Peek1_spec [OF assms, of L] obtain t1 where p:
      "Peek L 1 t = Inr (nth_token L t 1, t1)" "cache_ok t1"
      "\<forall>i. nth_token L t1 i = nth_token L t i" by blast
    from same_stream [OF assms p(2) p(3)] p(1,2) tok1 show ?thesis by auto
  qed
  have 5: "\<exists>r tm. Match L tt t = Inr (r, tm) \<and> cache_ok tm \<and>
             (if token_type (fst (Read L t)) = tt
              then r = Some (fst (Read L t))
                 \<and> (\<forall>n. upcoming L n tm = upcoming L n ?ta)
              else r = None \<and> (\<forall>n. upcoming L n tm = upcoming L n t))"
  proof -
    from Match_spec [OF assms, of L tt] obtain r tm where m:
      "Match L tt t = Inr (r, tm)" "cache_ok tm"
      "if token_type (nth_token L t 0) = tt
       then r = Some (nth_token L t 0) \<and> (\<forall>i. nth_token L tm i = nth_token L t (Suc i))
       else r = None \<and> (\<forall>i. nth_token L tm i = nth_token L t i)" by blast
    show ?thesis
    proof (cases "token_type (nth_token L t 0) = tt")
      case True
      with m(3) have r: "r = Some (nth_token L t 0)"
        and sh: "\<forall>i. nth_token L tm i = nth_token L ?ta i" using ra(3) by simp_all
      from same_stream [OF ra(2) m(2) sh] r m(1,2) True tok0 show ?thesis by auto
    next
      case False
      with m(3) have r: "r = None" and sh: "\<forall>i. nth_token L tm i = nth_token L t i" by simp_all
      from same_stream [OF assms m(2) sh] r m(1,2) False tok0 show ?thesis by auto
    qed
  qed
  have 6: "\<exists>r tm. MatchLpar L tt t = Inr (r, tm) \<and> cache_ok tm \<and>
             (if token_type (fst (Read L t)) = Lpar \<and> token_type (fst (Read L ?ta)) = tt
              then r = Some (fst (Read L ?ta))
                 \<and> (\<forall>n. upcoming L n tm = upcoming L n ?tb)
              else r = None \<and> (\<forall>n. upcoming L n tm = upcoming L n t))"
  proof -
    from MatchLpar_spec [OF assms, of L tt] obtain r tm where m:
      "MatchLpar L tt t = Inr (r, tm)" "cache_ok tm"
      "if token_type (nth_token L t 0) = Lpar \<and> token_type (nth_token L t 1) = tt
       then r = Some (nth_token L t 1)
          \<and> (\<forall>i. nth_token L tm i = nth_token L t (Suc (Suc i)))
       else r = None \<and> (\<forall>i. nth_token L tm i = nth_token L t i)" by blast
    show ?thesis
    proof (cases "token_type (nth_token L t 0) = Lpar \<and> token_type (nth_token L t 1) = tt")
      case True
      with m(3) have r: "r = Some (nth_token L t 1)"
        and sh: "\<forall>i. nth_token L tm i = nth_token L ?tb i" using ra(3) rb(3) by simp_all
      from same_stream [OF rb(2) m(2) sh] r m(1,2) True tok0 tok1 show ?thesis by auto
    next
      case False
      with m(3) have r: "r = None" and sh: "\<forall>i. nth_token L tm i = nth_token L t i" by auto
      from same_stream [OF assms m(2) sh] r m(1,2) False tok0 tok1 show ?thesis by auto
    qed
  qed
  from 1 2 3 4 5 6 show ?thesis by (intro conjI)
qed


theorem Tokenizer_lookahead_witness:
  "cache_ok (new_Tokenizer \<lparr>loc = [], token_type = Eof\<rparr> [0x28, 0x29])
   \<and> (\<exists>tm. MatchLpar byte_lexer Rpar (new_Tokenizer \<lparr>loc = [], token_type = Eof\<rparr> [0x28, 0x29])
               = Inr (Some \<lparr>loc = [0x29], token_type = Rpar\<rparr>, tm)
            \<and> upcoming byte_lexer 1 tm = [\<lparr>loc = [], token_type = Eof\<rparr>])
   \<and> (\<exists>tm. Match byte_lexer Rpar (new_Tokenizer \<lparr>loc = [], token_type = Eof\<rparr> [0x28, 0x29])
               = Inr (None, tm)
            \<and> upcoming byte_lexer 2 tm
                = [\<lparr>loc = [0x28], token_type = Lpar\<rparr>, \<lparr>loc = [0x29], token_type = Rpar\<rparr>])"
proof -
  let ?t = "new_Tokenizer \<lparr>loc = [], token_type = Eof\<rparr> [0x28, 0x29]"
  have ok: "cache_ok ?t" by (simp add: cache_ok_def new_Tokenizer_def)
  have r1: "fst (Read byte_lexer ?t) = \<lparr>loc = [0x28], token_type = Lpar\<rparr>"
    by (simp add: Read_def new_Tokenizer_def byte_lexer_def)
  have r2: "fst (Read byte_lexer (snd (Read byte_lexer ?t))) = \<lparr>loc = [0x29], token_type = Rpar\<rparr>"
    by (simp add: Read_def new_Tokenizer_def byte_lexer_def)
  have u1: "upcoming byte_lexer 1 (snd (Read byte_lexer (snd (Read byte_lexer ?t))))
              = [\<lparr>loc = [], token_type = Eof\<rparr>]"
    by (simp add: Read_def new_Tokenizer_def byte_lexer_def)
  have u2: "upcoming byte_lexer 2 ?t
              = [\<lparr>loc = [0x28], token_type = Lpar\<rparr>, \<lparr>loc = [0x29], token_type = Rpar\<rparr>]"
    by (simp add: Read_def new_Tokenizer_def byte_lexer_def numeral_2_eq_2)
  note th = Tokenizer_lookahead [OF ok, of _ _ byte_lexer Rpar]
  from th obtain r tm where m:
    "MatchLpar byte_lexer Rpar ?t = Inr (r, tm)"
    "if token_type (fst (Read byte_lexer ?t)) = Lpar
         \<and> token_type (fst (Read byte_lexer (snd (Read byte_lexer ?t)))) = Rpar
     then r = Some (fst (Read byte_lexer (snd (Read byte_lexer ?t))))
        \<and> (\<forall>n. upcoming byte_lexer n tm
                 = upcoming byte_lexer n (snd (Read byte_lexer (snd (Read byte_lexer ?t)))))
     else r = None \<and> (\<forall>n. upcoming byte_lexer n tm = upcoming byte_lexer n ?t)"
    by blast
  from m(2) have c: "r = Some \<lparr>loc = [0x29], token_type = Rpar\<rparr>
      \<and> (\<forall>n. upcoming byte_lexer n tm
               = upcoming byte_lexer n (snd (Read byte_lexer (snd (Read byte_lexer ?t)))))"
    unfolding r1 r2 by simp
  then have "upcoming byte_lexer 1 tm
      = upcoming byte_lexer 1 (snd (Read byte_lexer (snd (Read byte_lexer ?t))))" by blast
  then have "upcoming byte_lexer 1 tm = [\<lparr>loc = [], token_type = Eof\<rparr>]"
    by (simp only: u1)
  with c m(1) have A: "\<exists>tm. MatchLpar byte_lexer Rpar ?t
               = Inr (Some \<lparr>loc = [0x29], token_type = Rpar\<rparr>, tm)
            \<and> upcoming byte_lexer 1 tm = [\<lparr>loc = [], token_type = Eof\<rparr>]" by blast
  from th obtain r' tm' where m':
    "Match byte_lexer Rpar ?t = Inr (r', tm')"
    "if token_type (fst (Read byte_lexer ?t)) = Rpar
     then r' = Some (fst (Read byte_lexer ?t))
        \<and> (\<forall>n. upcoming byte_lexer n tm' = upcoming byte_lexer n (snd (Read byte_lexer ?t)))
     else r' = None \<and> (\<forall>n. upcoming byte_lexer n tm' = upcoming byte_lexer n ?t)"
    by blast
  from m'(2) have c': "r' = None
      \<and> (\<forall>n. upcoming byte_lexer n tm' = upcoming byte_lexer n ?t)"
    unfolding r1 by simp
  then have "upcoming byte_lexer 2 tm' = upcoming byte_lexer 2 ?t" by blast
  then have "upcoming byte_lexer 2 tm'
          = [\<lparr>loc = [0x28], token_type = Lpar\<rparr>, \<lparr>loc = [0x29], token_type = Rpar\<rparr>]"
    by (simp only: u2)
  with c' m'(1) have B: "\<exists>tm. Match byte_lexer Rpar ?t = Inr (None, tm)
            \<and> upcoming byte_lexer 2 tm
                = [\<lparr>loc = [0x28], token_type = Lpar\<rparr>, \<lparr>loc = [0x29], token_type = Rpar\<rparr>]"
    by blast
  from ok A B show ?thesis by (intro conjI)
qed

section \<open>Properties of the value type encoding\<close>

lemma find_fst_Some:
  "distinct (map fst tbl) \<Longrightarrow> (b, vt) \<in> set tbl \<Longrightarrow>
   find (\<lambda>(val, name). val = b) tbl = Some (b, vt)"
proof (induction tbl)
  case Nil
  then show ?case by simp
next
  case (Cons e tbl)
  obtain b' vt' where e: "e = (b', vt')" by (cases e)
  show ?case
  proof (cases "b' = b")
    case True
    with Cons.prems e have "vt' = vt" by (force simp: image_iff)
    with True e show ?thesis by simp
  next
    case False
    with Cons e show ?thesis by auto
  qed
qed

lemma find_snd_Some:
  "distinct (map snd tbl) \<Longrightarrow> (b, vt) \<in> set tbl \<Longrightarrow>
   find (\<lambda>(val, name). name = vt) tbl = Some (b, vt)"
proof (induction tbl)
  case Nil
  then show ?case by simp
next
  case (Cons e tbl)
  obtain b' vt' where e: "e = (b', vt')" by (cases e)
  show ?case
  proof (cases "vt' = vt")
    case True
    with Cons.prems e have "b' = b" by (force simp: image_iff)
    with True e show ?thesis by simp
  next
    case False
    with Cons e show ?thesis by auto
  qed
qed

lemma Decode_Some_mem: "Decode tbl b = Some vt \<Longrightarrow> (b, vt) \<in> set tbl"
  by (induction tbl) (auto simp: Decode_def split: if_splits)

lemma Decode_None_iff: "Decode tbl b = None \<longleftrightarrow> b \<notin> fst ` set tbl"
  by (induction tbl) (auto simp: Decode_def split: if_splits)

text \<open>
  Claim C10. Encoding and decoding of value types are inverse to each other. The case
  labels of a C++ switch are pairwise distinct (the program does not compile otherwise),
  so the bytes of the table are distinct and so are its names. Then: every value type
  \<open>vt\<close> of the table is encoded to a byte that decodes to \<open>vt\<close>; whenever a byte \<open>b\<close>
  decodes to \<open>vt\<close>, \<open>vt\<close> encodes to \<open>b\<close>; and \<open>Decode\<close> returns \<open>nullopt\<close> exactly on the
  bytes that are not in the table.
\<close>

theorem Encode_Decode_inverse:
  assumes "distinct (map fst tbl)" and "distinct (map snd tbl)"
  shows "(\<forall>vt \<in> snd ` set tbl. \<exists>b. Encode tbl vt = Returned b \<and> Decode tbl b = Some vt)
       \<and> (\<forall>b vt. Decode tbl b = Some vt \<longrightarrow> Encode tbl vt = Returned b)
       \<and> (\<forall>b. Decode tbl b = None \<longleftrightarrow> b \<notin> fst ` set tbl)"
proof (intro conjI ballI allI impI)
  fix vt assume "vt \<in> snd ` set tbl"
  then obtain b where mem: "(b, vt) \<in> set tbl" by auto
  have "Encode tbl vt = Returned b"
    using find_snd_Some [OF assms(2) mem] by (simp add: Encode_def)
  moreover have "Decode tbl b = Some vt"
    using find_fst_Some [OF assms(1) mem] by (simp add: Decode_def)
  ultimately show "\<exists>b. Encode tbl vt = Returned b \<and> Decode tbl b = Some vt" by blast
next
  fix b vt assume "Decode tbl b = Some vt"
  then have "(b, vt) \<in> set tbl" by (rule Decode_Some_mem)
  then show "Encode tbl vt = Returned b"
    using find_snd_Some [OF assms(2)] by (simp add: Encode_def)
next
  fix b show "Decode tbl b = None \<longleftrightarrow> b \<notin> fst ` set tbl" by (rule Decode_None_iff)
qed

theorem Encode_Decode_inverse_witness:
  "distinct (map fst value_type_def) \<and> distinct (map snd value_type_def)
   \<and> Encode value_type_def Funcref = Returned 0x70
   \<and> Decode value_type_def 0x70 = Some Funcref
   \<and> Decode value_type_def 0x40 = None"
proof -
  have d1: "distinct (map fst value_type_def)" by (simp add: value_type_def_def)
  have d2: "distinct (map snd value_type_def)" by (simp add: value_type_def_def)
  have dec: "Decode value_type_def 0x70 = Some Funcref"
    by (simp add: value_type_def_def Decode_def)
  have none: "(0x40 :: u8) \<notin> fst ` set value_type_def"
    by (simp add: value_type_def_def)
  from Encode_Decode_inverse [OF d1 d2] dec none d1 d2 show ?thesis by blast
qed

section \<open>Properties of the function type map\<close>

lemma index_of_Some: "x \<in> set xs \<Longrightarrow> \<exists>i. index_of x xs = Some i \<and> i < length xs \<and> xs ! i = x"
  by (induction xs) auto

lemma index_of_None: "x \<notin> set xs \<Longrightarrow> index_of x xs = None"
  by (induction xs) auto

lemma apply_ops_list: "list_m (apply_ops ops m) = list_m m @ defined_by ops"
  by (induction ops m rule: apply_ops.induct) (auto simp: Define_def Use_def split: option.splits)

lemma Use_deferred_prefix: "prefix (deferred_list_m m) (deferred_list_m (snd (Use ft m)))"
  by (auto simp: Use_def split: option.splits)

lemma apply_ops_deferred_prefix: "prefix (deferred_list_m m) (deferred_list_m (apply_ops ops m))"
proof (induction ops m rule: apply_ops.induct)
  case (1 m)
  then show ?case by simp
next
  case (2 ft ops m)
  then show ?case by (simp add: Define_def)
next
  case (3 ft ops m)
  from Use_deferred_prefix [of m ft] "3.IH" show ?case
    by (auto intro: prefix_order.trans)
qed

lemma Use_distinct: "distinct (deferred_list_m m) \<Longrightarrow> distinct (deferred_list_m (snd (Use ft m)))"
  by (auto simp: Use_def split: option.splits)

lemma apply_ops_distinct:
  "distinct (deferred_list_m m) \<Longrightarrow> distinct (deferred_list_m (apply_ops ops m))"
  by (induction ops m rule: apply_ops.induct) (auto simp: Define_def Use_distinct)

text \<open>
  Claim C5. Using an anonymous function type that is already in the map returns its
  index and leaves the map as it is, so its size does not grow. Using one that is not
  in the map returns no index and defers the type (once): the size stays the same
  until \<open>EndModule\<close>. After any sequence of definitions and uses, \<open>EndModule\<close> gives
  the types that were there, then every explicitly defined type in order, then the
  deferred types; types deferred earlier stay in front of those deferred later, and no
  type is deferred twice. Defining the same structure twice gives two entries.
\<close>

theorem FunctionTypeMap_deferral:
  "(ft \<in> set (list_m m) \<longrightarrow>
      (\<exists>i. Use ft m = (Some i, m) \<and> i < Size m \<and> Get m i = Some ft))
   \<and> (ft \<notin> set (list_m m) \<longrightarrow>
      fst (Use ft m) = None \<and> Size (snd (Use ft m)) = Size m
      \<and> list_m (snd (Use ft m)) = list_m m
      \<and> ft \<in> set (deferred_list_m (snd (Use ft m)))
      \<and> (ft \<notin> set (deferred_list_m m) \<longrightarrow>
            deferred_list_m (snd (Use ft m)) = deferred_list_m m @ [ft]))
   \<and> list_m (EndModule (apply_ops ops m))
        = list_m m @ defined_by ops @ deferred_list_m (apply_ops ops m)
   \<and> prefix (deferred_list_m m) (deferred_list_m (apply_ops ops m))
   \<and> (distinct (deferred_list_m m) \<longrightarrow> distinct (deferred_list_m (apply_ops ops m)))
   \<and> Size (Define ft (Define ft m)) = Size m + 2
   \<and> list_m (Define ft (Define ft m)) = list_m m @ [ft, ft]"
proof -
  have 1: "ft \<in> set (list_m m) \<longrightarrow>
      (\<exists>i. Use ft m = (Some i, m) \<and> i < Size m \<and> Get m i = Some ft)"
  proof
    assume "ft \<in> set (list_m m)"
    from index_of_Some [OF this] obtain i where
      "index_of ft (list_m m) = Some i" "i < length (list_m m)" "list_m m ! i = ft" by blast
    then show "\<exists>i. Use ft m = (Some i, m) \<and> i < Size m \<and> Get m i = Some ft"
      by (simp add: Use_def Size_def Get_def)
  qed
  have 2: "ft \<notin> set (list_m m) \<longrightarrow>
      fst (Use ft m) = None \<and> Size (snd (Use ft m)) = Size m
      \<and> list_m (snd (Use ft m)) = list_m m
      \<and> ft \<in> set (deferred_list_m (snd (Use ft m)))
      \<and> (ft \<notin> set (deferred_list_m m) \<longrightarrow>
            deferred_list_m (snd (Use ft m)) = deferred_list_m m @ [ft])"
    by (simp add: Use_def Size_def index_of_None)
  have 3: "list_m (EndModule (apply_ops ops m))
        = list_m m @ defined_by ops @ deferred_list_m (apply_ops ops m)"
    by (simp add: EndModule_def apply_ops_list)
  have 4: "prefix (deferred_list_m m) (deferred_list_m (apply_ops ops m))"
    by (rule apply_ops_deferred_prefix)
  have 5: "distinct (deferred_list_m m) \<longrightarrow> distinct (deferred_list_m (apply_ops ops m))"
    by (simp add: apply_ops_distinct)
  have 6: "Size (Define ft (Define ft m)) = Size m + 2"
    "list_m (Define ft (Define ft m)) = list_m m @ [ft, ft]"
    by (simp_all add: Define_def Size_def)
  from 1 2 3 4 5 6 show ?thesis by (intro conjI)
qed


theorem FunctionTypeMap_deferral_witness:
  "list_m (EndModule (apply_ops
       [DefineOp \<lparr>params = [I32], results = []\<rparr>,
        UseOp \<lparr>params = [F32], results = []\<rparr>,
        DefineOp \<lparr>params = [I64], results = []\<rparr>] BeginModule))
     = [\<lparr>params = [I32], results = []\<rparr>, \<lparr>params = [I64], results = []\<rparr>,
        \<lparr>params = [F32], results = []\<rparr>]
   \<and> Use \<lparr>params = [I32], results = []\<rparr> (Define \<lparr>params = [I32], results = []\<rparr> BeginModule)
       = (Some 0, Define \<lparr>params = [I32], results = []\<rparr> BeginModule)
   \<and> Size (Define \<lparr>params = [I32], results = []\<rparr> BeginModule) = 1
   \<and> Size (Define \<lparr>params = [], results = []\<rparr> (Define \<lparr>params = [], results = []\<rparr> BeginModule)) = 2"
proof -
  let ?i32 = "\<lparr>params = [I32], results = []\<rparr>"
  let ?i64 = "\<lparr>params = [I64], results = []\<rparr>"
  let ?f32 = "\<lparr>params = [F32], results = []\<rparr>"
  let ?e = "\<lparr>params = [], results = []\<rparr>"
  let ?ops = "[DefineOp ?i32, UseOp ?f32, DefineOp ?i64]"
  have d: "deferred_list_m (apply_ops ?ops BeginModule) = [?f32]"
    by (simp add: BeginModule_def Define_def Use_def)
  from FunctionTypeMap_deferral [of ?f32 BeginModule ?ops]
  have "list_m (EndModule (apply_ops ?ops BeginModule))
          = list_m BeginModule @ defined_by ?ops @ deferred_list_m (apply_ops ?ops BeginModule)"
    by blast
  then have A: "list_m (EndModule (apply_ops ?ops BeginModule)) = [?i32, ?i64, ?f32]"
    unfolding d by (simp add: BeginModule_def)
  have mem: "?i32 \<in> set (list_m (Define ?i32 BeginModule))"
    by (simp add: Define_def BeginModule_def)
  from FunctionTypeMap_deferral [of ?i32 "Define ?i32 BeginModule" "[]"] mem
  obtain i where i: "Use ?i32 (Define ?i32 BeginModule) = (Some i, Define ?i32 BeginModule)"
    "i < Size (Define ?i32 BeginModule)" by blast
  have sz: "Size (Define ?i32 BeginModule) = 1" by (simp add: Size_def Define_def BeginModule_def)
  from i sz have B: "Use ?i32 (Define ?i32 BeginModule) = (Some 0, Define ?i32 BeginModule)"
    by simp
  from FunctionTypeMap_deferral [of ?e BeginModule "[]"]
  have "Size (Define ?e (Define ?e BeginModule)) = Size BeginModule + 2" by blast
  then have C: "Size (Define ?e (Define ?e BeginModule)) = 2"
    by (simp add: Size_def BeginModule_def)
  from A B sz C show ?thesis by (intro conjI)
qed

section \<open>Properties of the folded expressions\<close>

lemma parsesI: "(\<And>n. N \<le> n \<Longrightarrow> f n ts = Some r) \<Longrightarrow> parses f ts r"
  unfolding parses_def by blast

lemma parses_Suc:
  assumes "\<And>n. N \<le> n \<Longrightarrow> f (Suc n) ts = Some r"
  shows "parses f ts r"
proof (rule parsesI [of "Suc N"])
  fix n assume "Suc N \<le> n"
  then obtain m where "n = Suc m" "N \<le> m" by (cases n) auto
  with assms show "f n ts = Some r" by simp
qed

lemma ReadImmediates_literals:
  "no_literal ts \<Longrightarrow> ReadImmediates (map T_Literal imms @ ts) = (imms, ts)"
proof (induction imms)
  case Nil
  then show ?case by (cases ts rule: no_literal.cases) simp_all
next
  case (Cons s imms)
  then show ?case by simp
qed

lemma tokens_of_no_literal: "no_literal (tokens_of e @ ts)"
  by (cases e) simp_all

lemma concat_tokens_no_literal:
  "no_literal ts \<Longrightarrow> no_literal (concat (map tokens_of es) @ ts)"
  by (cases es) (simp_all add: tokens_of_no_literal)

lemma if_not_plain: "\<not> IsPlainKeyword ''if''" "\<not> IsPlainKeyword ''then''" "\<not> IsPlainKeyword ''else''"
  by (simp_all add: IsPlainKeyword_def structural_keywords_def)

lemma folded_IsExpression:
  "is_folded e \<Longrightarrow> well_formed e \<Longrightarrow> IsExpression (tokens_of e @ ts)"
  by (cases e) simp_all

lemma ReadExpressionList_flatten:
  assumes "\<And>e ts. e \<in> set es \<Longrightarrow> parses ReadExpression (tokens_of e @ ts) (flatten e, ts)"
    and "\<forall>e \<in> set es. is_folded e \<and> well_formed e"
    and "\<not> IsExpression ts"
  shows "parses ReadExpressionList (concat (map tokens_of es) @ ts) (concat (map flatten es), ts)"
  using assms
proof (induction es)
  case Nil
  show ?case
    by (rule parses_Suc [of 0]) (simp add: Nil.prems(3))
next
  case (Cons e es)
  let ?rest = "concat (map tokens_of es) @ ts"
  from Cons.prems(1) [of e ?rest] obtain N1 where
    N1: "\<And>n. N1 \<le> n \<Longrightarrow> ReadExpression n (tokens_of e @ ?rest) = Some (flatten e, ?rest)"
    unfolding parses_def by auto
  from Cons.IH [OF Cons.prems(1)] Cons.prems(2,3) obtain N2 where
    N2: "\<And>n. N2 \<le> n \<Longrightarrow> ReadExpressionList n ?rest = Some (concat (map flatten es), ts)"
    unfolding parses_def by auto
  have ex: "IsExpression (tokens_of e @ ?rest)"
    using Cons.prems(2) by (simp add: folded_IsExpression)
  show ?case
  proof (rule parses_Suc [of "max N1 N2"])
    fix n assume "max N1 N2 \<le> n"
    then have "N1 \<le> n" "N2 \<le> n" by simp_all
    with N1 N2 ex show "ReadExpressionList (Suc n) (concat (map tokens_of (e # es)) @ ts)
        = Some (concat (map flatten (e # es)), ts)"
      by simp
  qed
qed

lemma ReadInstructionList_flatten:
  assumes "\<And>e ts. e \<in> set es \<Longrightarrow> is_folded e \<Longrightarrow>
             parses ReadExpression (tokens_of e @ ts) (flatten e, ts)"
    and "\<forall>e \<in> set es. well_formed e"
  shows "parses ReadInstructionList (concat (map tokens_of es) @ T_Rpar # ts)
           (concat (map flatten es), T_Rpar # ts)"
  using assms
proof (induction es)
  case Nil
  show ?case by (rule parses_Suc [of 0]) simp
next
  case (Cons e es)
  let ?rest = "concat (map tokens_of es) @ T_Rpar # ts"
  from Cons.IH [OF Cons.prems(1)] Cons.prems(2) obtain N2 where
    N2: "\<And>n. N2 \<le> n \<Longrightarrow> ReadInstructionList n ?rest = Some (concat (map flatten es), T_Rpar # ts)"
    unfolding parses_def by auto
  have nl: "no_literal ?rest" by (rule concat_tokens_no_literal) simp
  show ?case
  proof (cases "is_folded e")
    case False
    then obtain kw imms where e: "e = Plain kw imms" by (cases e) simp_all
    with Cons.prems(2) have kw: "IsPlainKeyword kw" by simp
    show ?thesis
    proof (rule parses_Suc [of N2])
      fix n assume "N2 \<le> n"
      with N2 e kw ReadImmediates_literals [OF nl, of imms]
      show "ReadInstructionList (Suc n) (concat (map tokens_of (e # es)) @ T_Rpar # ts)
          = Some (concat (map flatten (e # es)), T_Rpar # ts)"
        by simp
    qed
  next
    case True
    from Cons.prems(1) [of e ?rest] True obtain N1 where
      N1: "\<And>n. N1 \<le> n \<Longrightarrow> ReadExpression n (tokens_of e @ ?rest) = Some (flatten e, ?rest)"
      unfolding parses_def by auto
    have ex: "IsExpression (tokens_of e @ ?rest)"
      using Cons.prems(2) True by (simp add: folded_IsExpression)
    obtain ts' where hd: "tokens_of e @ ?rest = T_Lpar # ts'"
      using True by (cases e) simp_all
    show ?thesis
    proof (rule parses_Suc [of "max N1 N2"])
      fix n assume "max N1 N2 \<le> n"
      then have n: "N1 \<le> n" "N2 \<le> n" by simp_all
      have "ReadInstructionList (Suc n) (tokens_of e @ ?rest)
              = Some (flatten e @ concat (map flatten es), T_Rpar # ts)"
        using ex N1 [OF n(1)] N2 [OF n(2)] unfolding hd by simp
      then show "ReadInstructionList (Suc n) (concat (map tokens_of (e # es)) @ T_Rpar # ts)
          = Some (concat (map flatten (e # es)), T_Rpar # ts)"
        by simp
    qed
  qed
qed


lemma fold_parse_flatten:
  "well_formed e \<Longrightarrow> is_folded e \<Longrightarrow> parses ReadExpression (tokens_of e @ ts) (flatten e, ts)"
proof (induction e arbitrary: ts)
  case (Plain kw imms)
  then show ?case by simp
next
  case (Folded kw imms operands)
  from Folded.prems have kw: "IsPlainKeyword kw"
    and ops: "\<forall>e \<in> set operands. is_folded e \<and> well_formed e" by simp_all
  let ?rest = "concat (map tokens_of operands) @ T_Rpar # ts"
  have "parses ReadExpressionList ?rest (concat (map flatten operands), T_Rpar # ts)"
    using Folded.IH ops by (intro ReadExpressionList_flatten) simp_all
  then obtain N where
    N: "\<And>n. N \<le> n \<Longrightarrow> ReadExpressionList n ?rest = Some (concat (map flatten operands), T_Rpar # ts)"
    unfolding parses_def by auto
  have nl: "no_literal ?rest" by (rule concat_tokens_no_literal) simp
  show ?case
  proof (rule parses_Suc [of N])
    fix n assume "N \<le> n"
    with N kw ReadImmediates_literals [OF nl, of imms]
    show "ReadExpression (Suc n) (tokens_of (Folded kw imms operands) @ ts)
        = Some (flatten (Folded kw imms operands), ts)"
      by simp
  qed
next
  case (FoldedIf cond then_body else_body)
  from FoldedIf.prems have c: "\<forall>e \<in> set cond. is_folded e \<and> well_formed e"
    and t: "\<forall>e \<in> set then_body. well_formed e" by simp_all
  let ?else = "case else_body of
          None \<Rightarrow> []
        | Some body \<Rightarrow> [T_Lpar, T_Keyword ''else''] @ concat (map tokens_of body) @ [T_Rpar]"
  let ?after_then = "?else @ T_Rpar # ts"
  let ?then = "concat (map tokens_of then_body) @ T_Rpar # ?after_then"
  let ?from_then = "T_Lpar # T_Keyword ''then'' # ?then"
  have "parses ReadExpressionList (concat (map tokens_of cond) @ ?from_then)
          (concat (map flatten cond), ?from_then)"
    using FoldedIf.IH(1) c by (intro ReadExpressionList_flatten) (simp_all add: if_not_plain)
  then obtain N1 where N1: "\<And>n. N1 \<le> n \<Longrightarrow>
      ReadExpressionList n (concat (map tokens_of cond) @ ?from_then)
        = Some (concat (map flatten cond), ?from_then)"
    unfolding parses_def by auto
  have "parses ReadInstructionList ?then (concat (map flatten then_body), T_Rpar # ?after_then)"
    using FoldedIf.IH(2) t by (intro ReadInstructionList_flatten) simp_all
  then obtain N2 where N2: "\<And>n. N2 \<le> n \<Longrightarrow>
      ReadInstructionList n ?then = Some (concat (map flatten then_body), T_Rpar # ?after_then)"
    unfolding parses_def by auto
  show ?case
  proof (cases else_body)
    case None
    show ?thesis
    proof (rule parses_Suc [of "max N1 N2"])
      fix n assume "max N1 N2 \<le> n"
      then have n: "N1 \<le> n" "N2 \<le> n" by simp_all
      from N1 [OF n(1)] N2 [OF n(2)] None
      show "ReadExpression (Suc n) (tokens_of (FoldedIf cond then_body else_body) @ ts)
          = Some (flatten (FoldedIf cond then_body else_body), ts)"
        by (simp add: if_not_plain)
    qed
  next
    case (Some body)
    with FoldedIf.prems have b: "\<forall>e \<in> set body. well_formed e" by simp
    have "parses ReadInstructionList (concat (map tokens_of body) @ T_Rpar # T_Rpar # ts)
            (concat (map flatten body), T_Rpar # T_Rpar # ts)"
      using FoldedIf.IH(3) [of body] Some b by (intro ReadInstructionList_flatten) simp_all
    then obtain N3 where N3: "\<And>n. N3 \<le> n \<Longrightarrow>
        ReadInstructionList n (concat (map tokens_of body) @ T_Rpar # T_Rpar # ts)
          = Some (concat (map flatten body), T_Rpar # T_Rpar # ts)"
      unfolding parses_def by auto
    show ?thesis
    proof (rule parses_Suc [of "max (max N1 N2) N3"])
      fix n assume "max (max N1 N2) N3 \<le> n"
      then have n: "N1 \<le> n" "N2 \<le> n" "N3 \<le> n" by simp_all
      from N1 [OF n(1)] N2 [OF n(2)] N3 [OF n(3)] Some
      show "ReadExpression (Suc n) (tokens_of (FoldedIf cond then_body else_body) @ ts)
          = Some (flatten (FoldedIf cond then_body else_body), ts)"
        by (simp add: if_not_plain)
    qed
  qed
qed

text \<open>
  Claim C6. Parsing a folded expression succeeds (with enough fuel for its nesting) and
  emits \<open>flatten\<close> of it: for \<open>(instr operand1 ... operandk)\<close> the instructions of
  each operand, in source order and each flattened in the same way, then the head
  instruction; for \<open>(if cond (then ...) (else ...))\<close> the condition, \<open>if\<close>, the
  then-body, \<open>else\<close>, the else-body, \<open>end\<close>. The tokens after the expression are
  left unread.
\<close>

theorem ReadExpression_flatten:
  "(well_formed e \<and> is_folded e \<longrightarrow>
      (\<exists>N. \<forall>n \<ge> N. ReadExpression n (tokens_of e @ ts) = Some (flatten e, ts)))
   \<and> flatten (Folded kw imms operands) = concat (map flatten operands) @ [(Op kw, imms)]
   \<and> flatten (FoldedIf cond then_body (Some else_body))
       = concat (map flatten cond) @ [(Op_If, [])] @ concat (map flatten then_body)
         @ [(Op_Else, [])] @ concat (map flatten else_body) @ [(Op_End, [])]"
  using fold_parse_flatten [of e ts] by (simp add: parses_def)

theorem ReadExpression_flatten_witness:
  "well_formed (Folded ''i32.add'' [] [Folded ''i32.const'' [''0''] [], Folded ''i32.const'' [''1''] []])
   \<and> is_folded (Folded ''i32.add'' [] [Folded ''i32.const'' [''0''] [], Folded ''i32.const'' [''1''] []])
   \<and> (\<exists>N. ReadExpression N
         [T_Lpar, T_Keyword ''i32.add'',
            T_Lpar, T_Keyword ''i32.const'', T_Literal ''0'', T_Rpar,
            T_Lpar, T_Keyword ''i32.const'', T_Literal ''1'', T_Rpar,
          T_Rpar]
       = Some ([(Op ''i32.const'', [''0'']), (Op ''i32.const'', [''1'']), (Op ''i32.add'', [])], []))
   \<and> ReadExpression 5
         [T_Lpar, T_Keyword ''if'', T_Lpar, T_Keyword ''nop'', T_Rpar,
            T_Lpar, T_Keyword ''then'', T_Lpar, T_Keyword ''nop'', T_Rpar, T_Rpar,
            T_Lpar, T_Keyword ''else'', T_Lpar, T_Keyword ''nop'', T_Rpar, T_Rpar,
          T_Rpar]
       = Some ([(Op ''nop'', []), (Op_If, []), (Op ''nop'', []), (Op_Else, []), (Op ''nop'', []),
                (Op_End, [])], [])"
proof -
  let ?e = "Folded ''i32.add'' [] [Folded ''i32.const'' [''0''] [], Folded ''i32.const'' [''1''] []]"
  have wf: "well_formed ?e" "is_folded ?e"
    by (simp_all add: IsPlainKeyword_def structural_keywords_def)
  from ReadExpression_flatten [of ?e "[]"] wf obtain N where
    "\<forall>n \<ge> N. ReadExpression n (tokens_of ?e @ []) = Some (flatten ?e, [])" by blast
  then have "ReadExpression N (tokens_of ?e @ []) = Some (flatten ?e, [])" by blast
  then have A: "\<exists>N. ReadExpression N
         [T_Lpar, T_Keyword ''i32.add'',
            T_Lpar, T_Keyword ''i32.const'', T_Literal ''0'', T_Rpar,
            T_Lpar, T_Keyword ''i32.const'', T_Literal ''1'', T_Rpar,
          T_Rpar]
       = Some ([(Op ''i32.const'', [''0'']), (Op ''i32.const'', [''1'']), (Op ''i32.add'', [])], [])"
    by (intro exI [of _ N]) simp
  have B: "ReadExpression 5
         [T_Lpar, T_Keyword ''if'', T_Lpar, T_Keyword ''nop'', T_Rpar,
            T_Lpar, T_Keyword ''then'', T_Lpar, T_Keyword ''nop'', T_Rpar, T_Rpar,
            T_Lpar, T_Keyword ''else'', T_Lpar, T_Keyword ''nop'', T_Rpar, T_Rpar,
          T_Rpar]
       = Some ([(Op ''nop'', []), (Op_If, []), (Op ''nop'', []), (Op_Else, []), (Op ''nop'', []),
                (Op_End, [])], [])"
    by (simp add: eval_nat_numeral IsPlainKeyword_def structural_keywords_def)
  from wf A B show ?thesis by (intro conjI)
qed

section \<open>Further properties of the readers\<close>

text \<open>
  \<open>ReadBytes(data, N)\<close> succeeds exactly when \<open>N\<close> bytes are left; its result is then
  the first \<open>N\<close> bytes and the span is advanced past them. When it fails the span is
  left as it was.
\<close>

theorem ReadBytes_split:
  "ReadBytes data N =
     (if length data < N then (None, data) else (Some (take N data), drop N data))
   \<and> (\<forall>bytes rest. ReadBytes data N = (Some bytes, rest) \<longleftrightarrow>
         length bytes = N \<and> data = bytes @ rest)
   \<and> (\<forall>rest. ReadBytes data N = (None, rest) \<longleftrightarrow> length data < N \<and> rest = data)"
proof (intro conjI allI)
  show "ReadBytes data N =
     (if length data < N then (None, data) else (Some (take N data), drop N data))"
    by (simp add: ReadBytes_def)
next
  fix bytes rest
  show "ReadBytes data N = (Some bytes, rest) \<longleftrightarrow> length bytes = N \<and> data = bytes @ rest"
  proof
    assume "ReadBytes data N = (Some bytes, rest)"
    then have "\<not> length data < N" "bytes = take N data" "rest = drop N data"
      by (auto simp: ReadBytes_def split: if_splits)
    then show "length bytes = N \<and> data = bytes @ rest" by simp
  next
    assume "length bytes = N \<and> data = bytes @ rest"
    then show "ReadBytes data N = (Some bytes, rest)" by (auto simp: ReadBytes_def)
  qed
next
  fix rest
  show "ReadBytes data N = (None, rest) \<longleftrightarrow> length data < N \<and> rest = data"
    by (auto simp: ReadBytes_def)
qed

lemma ReadVec_loop_length:
  "ReadVec_loop read_element n acc data = (Some xs, rest) \<Longrightarrow> length xs = length acc + n"
proof (induction n arbitrary: acc data)
  case 0
  then show ?case by simp
next
  case (Suc n)
  obtain r d where rd: "read_element data = (r, d)" by (rule prod.exhaust)
  with Suc.prems obtain elt where r: "r = Some elt" by (cases r) simp_all
  with rd Suc.prems have "ReadVec_loop read_element n (acc @ [elt]) d = (Some xs, rest)" by simp
  from Suc.IH [OF this] show ?case by simp
qed

text \<open>
  When \<open>ReadVec\<close> succeeds it returns as many elements as the length that it read in
  front of them says, and the storage for them had been granted; when the storage is
  not granted, it throws once the length is read.
\<close>

theorem ReadVec_length:
  assumes "ReadVec reserve read_element data = Inr (Some xs, rest)"
  shows "\<exists>len d. ReadVarU32 data = (Some len, d) \<and> reserve (unat len)
           \<and> length xs = unat len \<and> suffix d data"
proof -
  obtain r d where rd: "ReadVarU32 data = (r, d)" by (rule prod.exhaust)
  with assms obtain len where r: "r = Some len" by (cases r) (simp_all add: ReadVec_def)
  with rd assms have g: "reserve (unat len)"
    and "ReadVec_loop read_element (unat len) [] d = (Some xs, rest)"
    by (simp_all add: ReadVec_def split: if_splits)
  from ReadVec_loop_length [OF this(2)] have "length xs = unat len" by simp
  moreover from rd ReadVarU32_suffix have "suffix d data" by (rule leaves_suffixD [rotated])
  ultimately show ?thesis using rd r g by blast
qed

theorem ReadVec_length_witness:
  "ReadVec reserve_granted ReadIndex [0x02, 0x07, 0x08, 0x09] = Inr (Some [7, 8], [0x09])
   \<and> ReadVarU32 [0x02, 0x07, 0x08, 0x09] = (Some 2, [0x07, 0x08, 0x09])
   \<and> length [7, 8 :: u32] = unat (2 :: u32)"
proof -
  have len: "ReadVarU32 [0x02, 0x07, 0x08, 0x09] = (Some 2, [0x07, 0x08, 0x09])"
    by (simp add: leb_eval)
  have u2: "unat (2 :: u32) = Suc (Suc 0)" by simp
  have loop: "ReadVec_loop ReadIndex (Suc (Suc 0)) [] [0x07, 0x08, 0x09] = (Some [7, 8], [0x09])"
    by (simp add: ReadIndex_def leb_eval)
  have run: "ReadVec reserve_granted ReadIndex [0x02, 0x07, 0x08, 0x09] = Inr (Some [7, 8], [0x09])"
    unfolding ReadVec_def len
    by (simp only: prod.case option.case u2 loop reserve_granted_def if_True)
  from ReadVec_length [OF run] len have "length [7, 8 :: u32] = unat (2 :: u32)" by simp
  with run len show ?thesis by (intro conjI)
qed

theorem ReadVec_bad_alloc:
  "ReadVarU32 data = (Some len, d) \<Longrightarrow> \<not> reserve (unat len) \<Longrightarrow>
   ReadVec reserve read_element data = Inl Throws_bad_alloc"
  by (simp add: ReadVec_def)

text \<open>
  After \<open>Read()\<close>, \<open>Previous()\<close> is the token that \<open>Read()\<close> returned, whether the
  token came from the cache or from the lexer.
\<close>

theorem Read_sets_Previous:
  "Previous (snd (Read L t)) = fst (Read L t)
   \<and> Previous (new_Tokenizer tok data) = tok"
  by (simp add: Previous_def Read_def new_Tokenizer_def Let_def split: prod.splits)

lemma ReadVarInt_loop_unsigned_value:
  "ReadVarInt_loop False i r data = (Some v, rest) \<Longrightarrow>
   \<exists>pre. data = pre @ rest \<and> v = r OR leb_bits i pre"
proof (induction data arbitrary: i r)
  case Nil
  then show ?case by simp
next
  case (Cons byte data)
  let ?r = "r OR push_bit (i * 7) (ucast (byte AND 0x7f))"
  consider (last) "i + 1 = kMaxBytes LENGTH('a)"
    | (stop) "i + 1 \<noteq> kMaxBytes LENGTH('a)" "byte AND 0x80 = 0"
    | (go) "i + 1 \<noteq> kMaxBytes LENGTH('a)" "byte AND 0x80 \<noteq> 0" by blast
  then show ?case
  proof cases
    case last
    with Cons.prems have "v = ?r" "rest = data" by (auto simp: Let_def split: if_splits)
    then show ?thesis by (intro exI [of _ "[byte]"]) simp
  next
    case stop
    with Cons.prems have "v = ?r" "rest = data" by (auto simp: Let_def split: if_splits)
    then show ?thesis by (intro exI [of _ "[byte]"]) simp
  next
    case go
    with Cons.prems have "ReadVarInt_loop False (i + 1) ?r data = (Some v, rest)"
      by (simp add: Let_def)
    from Cons.IH [OF this] obtain pre where "data = pre @ rest" "v = ?r OR leb_bits (i + 1) pre"
      by blast
    then show ?thesis by (intro exI [of _ "byte # pre"]) (simp add: or.assoc)
  qed
qed

text \<open>
  The value that \<open>ReadVarInt\<close> returns for an unsigned target is made of the low seven
  bits of each byte consumed, the first byte lowest; the continuation bits and the
  bytes that are left do not enter it.
\<close>

theorem ReadVarInt_unsigned_value:
  assumes "ReadVarInt False data = (Some v, rest)"
  shows "\<exists>pre. data = pre @ rest \<and> v = leb_bits 0 pre"
  using ReadVarInt_loop_unsigned_value [of 0 0 data v rest] assms
  by (simp add: ReadVarInt_def)

theorem ReadVarInt_unsigned_value_witness:
  "ReadVarInt False [0xe5, 0x8e, 0x26, 0x01] = (Some (624485 :: u32), [0x01])
   \<and> (leb_bits 0 [0xe5, 0x8e, 0x26] :: u32) = 624485"
proof -
  have run: "ReadVarInt False [0xe5, 0x8e, 0x26, 0x01] = (Some (624485 :: u32), [0x01])"
    by (simp add: ReadVarInt_def kMaxBytes_def)
  from ReadVarInt_unsigned_value [OF run] obtain pre where
    pre: "[0xe5, 0x8e, 0x26, 0x01] = pre @ [0x01 :: u8]" "(624485 :: u32) = leb_bits 0 pre" by blast
  from pre(1) have "pre = [0xe5, 0x8e, 0x26]" by simp
  with pre(2) have "(leb_bits 0 [0xe5, 0x8e, 0x26] :: u32) = 624485" by simp
  with run show ?thesis by (intro conjI)
qed

end
